theory Spec2Isabelle
  imports Main "HOL-Library.Word" "HOL-Library.AList"
begin

unbundle bit_operations_syntax

section \<open>The sharded hash map of map.go\<close>

subsection \<open>Keys, the 32-bit FNV-1a hash, and the heap\<close>

text \<open>
  The key type \<open>K\<close> of the Go code is any \<open>comparable\<close> type. Two things of a key are
  used by map.go: the built-in map \<open>shard.items\<close> compares keys with Go's \<open>==\<close>, and
  \<open>getShard\<close> renders the key with \<open>fmt.Sprintf("%v", reflect.ValueOf(key))\<close>.
  Neither is code of map.go, so both are parameters of the model.
  \<open>eq_class k\<close> is the class of \<open>k\<close> under \<open>==\<close>, and \<open>None\<close> for a key that is not
  \<open>==\<close> to itself (a floating-point NaN, or a struct or array holding one): two keys are
  \<open>==\<close> exactly when they have a class and it is the same. For integers, strings and
  booleans the class is the key. \<open>format_v k\<close> is the rendered string, a sequence of bytes.
\<close>

record ('k, 'c) keytype =
  eq_class :: "'k \<Rightarrow> 'c option"
  format_v :: "'k \<Rightarrow> string"

definition key_eq :: "('k, 'c) keytype \<Rightarrow> 'k \<Rightarrow> 'k \<Rightarrow> bool" where
  "key_eq kt a b = (eq_class kt a \<noteq> None \<and> eq_class kt a = eq_class kt b)"

text \<open>A key type renders alike when keys that are \<open>==\<close> have the same \<open>%v\<close> string.\<close>

definition renders_alike :: "('k, 'c) keytype \<Rightarrow> bool" where
  "renders_alike kt = (\<forall>a b. key_eq kt a b \<longrightarrow> format_v kt a = format_v kt b)"

text \<open>Package hash/fnv, \<open>New32a\<close>: the offset basis, the prime, and for every byte
  \<open>hash ^= byte; hash *= prime32\<close> on \<open>uint32\<close>.\<close>

definition offset32 :: "32 word" where
  "offset32 = 2166136261"

definition prime32 :: "32 word" where
  "prime32 = 16777619"

fun fnv_write :: "32 word \<Rightarrow> string \<Rightarrow> 32 word" where
  "fnv_write h [] = h"
| "fnv_write h (b # bs) = fnv_write ((h XOR of_char b) * prime32) bs"

definition Sum32a :: "string \<Rightarrow> 32 word" where
  "Sum32a s = fnv_write offset32 s"

text \<open>
  \<open>ConcurrentHashMap.shards\<close> is a slice of pointers to \<open>shard\<close> structs, and the
  \<open>items\<close> field of a shard is a Go map, which is a reference to a map object. The heap keeps
  both kinds of object: \<open>shard_items h a\<close> is the \<open>items\<close> field of the shard struct at
  address \<open>a\<close>, and \<open>map_entries h r\<close> is the content of the map object \<open>r\<close>: its
  entries as a list whose order is the order in which \<open>range\<close> yields them (Go leaves
  that order unspecified; every order is some list). An entry is the class of its key
  with its value; the entries of keys that are not \<open>==\<close> to themselves have \<open>None\<close> there.
  Addresses below \<open>next_shard\<close> and \<open>next_map\<close> are allocated. The mutex embedded in a
  shard is not modelled: the operations run one at a time.
\<close>

record ('c, 'v) heap =
  shard_items :: "nat \<Rightarrow> nat"
  map_entries :: "nat \<Rightarrow> ('c option \<times> 'v) list"
  next_shard :: nat
  next_map :: nat

record ConcurrentHashMap =
  shards :: "nat list"
  shardMask :: "32 word"

datatype panic = MakesliceLenOutOfRange | IndexOutOfRange

definition items_of :: "('c, 'v) heap \<Rightarrow> nat \<Rightarrow> ('c option \<times> 'v) list" where
  "items_of h a = map_entries h (shard_items h a)"

text \<open>
  The built-in map: \<open>m[k]\<close> finds the entry of a key \<open>==\<close> to \<open>k\<close>, so none when \<open>k\<close>
  is not \<open>==\<close> to itself; \<open>m[k] = v\<close> overwrites the value of that entry and adds an entry
  when there is none, so always when \<open>k\<close> is not \<open>==\<close> to itself; \<open>delete(m, k)\<close>
  removes that entry, if any.
\<close>

definition map_index :: "('c option \<times> 'v) list \<Rightarrow> 'c option \<Rightarrow> 'v option" where
  "map_index m kc = (case kc of None \<Rightarrow> None | Some c \<Rightarrow> map_of m (Some c))"

definition map_assign :: "('c option \<times> 'v) list \<Rightarrow> 'c option \<Rightarrow> 'v \<Rightarrow> ('c option \<times> 'v) list" where
  "map_assign m kc v =
     (case kc of None \<Rightarrow> m @ [(None, v)] | Some c \<Rightarrow> AList.update (Some c) v m)"

definition map_delete :: "('c option \<times> 'v) list \<Rightarrow> 'c option \<Rightarrow> ('c option \<times> 'v) list" where
  "map_delete m kc = (case kc of None \<Rightarrow> m | Some c \<Rightarrow> AList.delete (Some c) m)"

subsection \<open>Construction and the router\<close>

text \<open>\<open>&shard[K, V]{items: make(map[K]V)}\<close>: a new empty map object and a new shard struct
  pointing to it.\<close>

definition new_shard :: "('c, 'v) heap \<Rightarrow> nat \<times> ('c, 'v) heap" where
  "new_shard h =
     (next_shard h,
      h\<lparr>shard_items := (shard_items h)(next_shard h := next_map h),
        map_entries := (map_entries h)(next_map h := []),
        next_shard := Suc (next_shard h),
        next_map := Suc (next_map h)\<rparr>)"

fun new_shards :: "nat \<Rightarrow> ('c, 'v) heap \<Rightarrow> nat list \<times> ('c, 'v) heap" where
  "new_shards 0 h = ([], h)"
| "new_shards (Suc n) h =
     (case new_shard h of (a, h') \<Rightarrow>
        (case new_shards n h' of (as, h'') \<Rightarrow> (a # as, h'')))"

text \<open>\<open>make\<close> panics on a negative length; \<open>uint32(shardCount)\<close> keeps the low 32 bits
  and \<open>- 1\<close> wraps around. The heap has no size limit: that \<open>make\<close> also refuses a length
  beyond what memory can hold is not modelled.\<close>

definition NewConcurrentHashMap ::
  "int \<Rightarrow> ('c, 'v) heap \<Rightarrow> panic + (ConcurrentHashMap \<times> ('c, 'v) heap)" where
  "NewConcurrentHashMap shardCount h =
     (if shardCount < 0 then Inl MakesliceLenOutOfRange
      else case new_shards (nat shardCount) h of
        (as, h') \<Rightarrow> Inr (\<lparr>shards = as, shardMask = word_of_int shardCount - 1\<rparr>, h'))"

definition shard_index :: "('k, 'c) keytype \<Rightarrow> ConcurrentHashMap \<Rightarrow> 'k \<Rightarrow> nat" where
  "shard_index kt c key = unat (Sum32a (format_v kt key) AND shardMask c)"

text \<open>Indexing the slice panics when the index is not below its length.\<close>

definition getShard :: "('k, 'c) keytype \<Rightarrow> ConcurrentHashMap \<Rightarrow> 'k \<Rightarrow> panic + nat" where
  "getShard kt c key =
     (let i = shard_index kt c key
      in if i < length (shards c) then Inr (shards c ! i) else Inl IndexOutOfRange)"

subsection \<open>The operations on one key\<close>

text \<open>\<open>Get\<close> returns \<open>(val, ok)\<close>: \<open>Some v\<close> is \<open>(v, true)\<close> and \<open>None\<close> is the zero
  value with \<open>false\<close>.\<close>

definition Get ::
  "('k, 'c) keytype \<Rightarrow> ('c, 'v) heap \<Rightarrow> ConcurrentHashMap \<Rightarrow> 'k \<Rightarrow> panic + 'v option" where
  "Get kt h c key =
     (case getShard kt c key of
        Inl e \<Rightarrow> Inl e
      | Inr a \<Rightarrow> Inr (map_index (items_of h a) (eq_class kt key)))"

definition Set ::
  "('k, 'c) keytype \<Rightarrow> ('c, 'v) heap \<Rightarrow> ConcurrentHashMap \<Rightarrow> 'k \<Rightarrow> 'v
     \<Rightarrow> panic + ('c, 'v) heap" where
  "Set kt h c key val =
     (case getShard kt c key of
        Inl e \<Rightarrow> Inl e
      | Inr a \<Rightarrow>
          Inr (h\<lparr>map_entries := (map_entries h)
                 (shard_items h a := map_assign (items_of h a) (eq_class kt key) val)\<rparr>))"

definition Delete ::
  "('k, 'c) keytype \<Rightarrow> ('c, 'v) heap \<Rightarrow> ConcurrentHashMap \<Rightarrow> 'k \<Rightarrow> panic + ('c, 'v) heap" where
  "Delete kt h c key =
     (case getShard kt c key of
        Inl e \<Rightarrow> Inl e
      | Inr a \<Rightarrow>
          Inr (h\<lparr>map_entries := (map_entries h)
                 (shard_items h a := map_delete (items_of h a) (eq_class kt key))\<rparr>))"

text \<open>A container can serve every key when its mask stays below its number of shards.\<close>

definition usable :: "ConcurrentHashMap \<Rightarrow> bool" where
  "usable c = (unat (shardMask c) < length (shards c))"

text \<open>Keys that are rendered as themselves and equal only to themselves: Go strings.\<close>

definition string_keys :: "(string, string) keytype" where
  "string_keys = \<lparr>eq_class = (\<lambda>k. Some k), format_v = (\<lambda>k. k)\<rparr>"

definition empty_heap :: "('c, 'v) heap" where
  "empty_heap = \<lparr>shard_items = (\<lambda>_. 0), map_entries = (\<lambda>_. []), next_shard = 0, next_map = 0\<rparr>"


subsection \<open>Traversal\<close>

text \<open>
  The visitor handed to \<open>Range\<close> is a Go closure: besides its answer it may change what it
  has captured, which is the state \<open>'s\<close> threaded through the calls. The inner loop reports
  whether it ran to the end (\<open>True\<close>) or left through \<open>return\<close> (\<open>False\<close>).
  A visitor that itself writes to the container is not modelled (on the shard being visited
  it would wait for the lock that the traversal holds).
\<close>

fun range_items ::
  "('c \<Rightarrow> 'v \<Rightarrow> 's \<Rightarrow> bool \<times> 's) \<Rightarrow> ('c \<times> 'v) list \<Rightarrow> 's \<Rightarrow> bool \<times> 's" where
  "range_items f [] st = (True, st)"
| "range_items f (e # es) st =
     (case f (fst e) (snd e) st of
        (ok, st') \<Rightarrow> if \<not> ok then (False, st') else range_items f es st')"

fun range_shards ::
  "('c option \<Rightarrow> 'v \<Rightarrow> 's \<Rightarrow> bool \<times> 's) \<Rightarrow> ('c, 'v) heap \<Rightarrow> nat list \<Rightarrow> 's \<Rightarrow> 's" where
  "range_shards f h [] st = st"
| "range_shards f h (a # as) st =
     (case range_items f (items_of h a) st of
        (ok, st') \<Rightarrow> if \<not> ok then st' else range_shards f h as st')"

text \<open>The methods \<open>Range\<close>, \<open>All\<close> and \<open>Collect\<close> carry the suffix \<open>_chm\<close>, since HOL has
  constants of these names.\<close>

definition Range_chm ::
  "('c option \<Rightarrow> 'v \<Rightarrow> 's \<Rightarrow> bool \<times> 's) \<Rightarrow> ('c, 'v) heap \<Rightarrow> ConcurrentHashMap \<Rightarrow> 's \<Rightarrow> 's" where
  "Range_chm f h c st = range_shards f h (shards c) st"

text \<open>\<open>All\<close> returns the same two loops as a push iterator over \<open>yield\<close>.\<close>

definition All_chm ::
  "('c, 'v) heap \<Rightarrow> ConcurrentHashMap \<Rightarrow> ('c option \<Rightarrow> 'v \<Rightarrow> 's \<Rightarrow> bool \<times> 's) \<Rightarrow> 's \<Rightarrow> 's" where
  "All_chm h c yield st = range_shards yield h (shards c) st"

text \<open>\<open>maps.Collect\<close> stores every pair of the sequence in a new map, which \<open>Collect\<close>
  returns.\<close>

definition Collect_chm :: "('c, 'v) heap \<Rightarrow> ConcurrentHashMap \<Rightarrow> ('c option \<times> 'v) list" where
  "Collect_chm h c = All_chm h c (\<lambda>k v m. (True, map_assign m k v)) []"

text \<open>To count and name the calls of a visitor, it is wrapped so that it also appends each
  pair it is called with to a log.\<close>

definition traced ::
  "('c \<Rightarrow> 'v \<Rightarrow> 's \<Rightarrow> bool \<times> 's)
     \<Rightarrow> 'c \<Rightarrow> 'v \<Rightarrow> ('c \<times> 'v) list \<times> 's \<Rightarrow> bool \<times> (('c \<times> 'v) list \<times> 's)" where
  "traced f k v = (\<lambda>(log, st). case f k v st of (ok, st') \<Rightarrow> (ok, (log @ [(k, v)], st')))"

text \<open>The entries of a container, shard after shard, and the content of each of its shards.\<close>

definition live_entries :: "('c, 'v) heap \<Rightarrow> ConcurrentHashMap \<Rightarrow> ('c option \<times> 'v) list" where
  "live_entries h c = concat (map (items_of h) (shards c))"

definition contents :: "('c, 'v) heap \<Rightarrow> ConcurrentHashMap \<Rightarrow> ('c option \<times> 'v) list list" where
  "contents h c = map (items_of h) (shards c)"

subsection \<open>Clone and EqualFunc\<close>

text \<open>
  The loop of \<open>Clone\<close> walks \<open>c.shards\<close> and indexes \<open>newMap.shards\<close> with the same
  index, which would panic beyond its length. \<open>maps.Clone\<close> makes a new map object with the
  same entries, and the assignment stores the reference in the new shard's \<open>items\<close> field.
\<close>

fun clone_shards :: "('c, 'v) heap \<Rightarrow> nat list \<Rightarrow> nat list \<Rightarrow> panic + ('c, 'v) heap" where
  "clone_shards h [] bs = Inr h"
| "clone_shards h (a # as) [] = Inl IndexOutOfRange"
| "clone_shards h (a # as) (b # bs) =
     clone_shards
       (h\<lparr>shard_items := (shard_items h)(b := next_map h),
          map_entries := (map_entries h)(next_map h := items_of h a),
          next_map := Suc (next_map h)\<rparr>) as bs"

definition Clone ::
  "('c, 'v) heap \<Rightarrow> ConcurrentHashMap \<Rightarrow> panic + (ConcurrentHashMap \<times> ('c, 'v) heap)" where
  "Clone h c =
     (case NewConcurrentHashMap (int (length (shards c))) h of
        Inl e \<Rightarrow> Inl e
      | Inr (newMap, h') \<Rightarrow>
          (case clone_shards h' (shards c) (shards newMap) of
             Inl e \<Rightarrow> Inl e
           | Inr h'' \<Rightarrow> Inr (newMap, h'')))"

text \<open>\<open>maps.EqualFunc\<close>: the same number of entries, and the key of every entry of the
  first map is found in the second, \<open>m2[k]\<close>, with a value that \<open>eq\<close> accepts.\<close>

definition maps_EqualFunc ::
  "('v \<Rightarrow> 'v \<Rightarrow> bool) \<Rightarrow> ('c option \<times> 'v) list \<Rightarrow> ('c option \<times> 'v) list \<Rightarrow> bool" where
  "maps_EqualFunc eq m1 m2 =
     (if length m1 \<noteq> length m2 then False
      else list_all
        (\<lambda>e. case map_index m2 (fst e) of None \<Rightarrow> False | Some v2 \<Rightarrow> eq (snd e) v2) m1)"

fun equal_shards ::
  "('v \<Rightarrow> 'v \<Rightarrow> bool) \<Rightarrow> ('c, 'v) heap \<Rightarrow> nat list \<Rightarrow> nat list \<Rightarrow> panic + bool" where
  "equal_shards eq h [] bs = Inr True"
| "equal_shards eq h (a # as) [] = Inl IndexOutOfRange"
| "equal_shards eq h (a # as) (b # bs) =
     (if \<not> maps_EqualFunc eq (items_of h a) (items_of h b) then Inr False
      else equal_shards eq h as bs)"

definition EqualFunc ::
  "('v \<Rightarrow> 'v \<Rightarrow> bool) \<Rightarrow> ('c, 'v) heap \<Rightarrow> ConcurrentHashMap \<Rightarrow> ConcurrentHashMap
     \<Rightarrow> panic + bool" where
  "EqualFunc eq h c other =
     (if length (shards c) \<noteq> length (shards other) then Inr False
      else equal_shards eq h (shards c) (shards other))"

subsection \<open>Well-formed heaps and sequences of writes\<close>

text \<open>
  What construction establishes and every operation keeps: the shards of a container are
  allocated, no two of them share a map object, and a map object holds each class of keys
  once (the entries of keys not \<open>==\<close> to themselves apart: each is a key of its own).
\<close>

definition keys_once :: "('c option \<times> 'v) list \<Rightarrow> bool" where
  "keys_once m = distinct (filter (\<lambda>kc. kc \<noteq> None) (map fst m))"

definition valid :: "('c, 'v) heap \<Rightarrow> ConcurrentHashMap \<Rightarrow> bool" where
  "valid h c =
     (distinct (map (shard_items h) (shards c)) \<and>
      list_all (\<lambda>a. a < next_shard h \<and> shard_items h a < next_map h \<and>
                    keys_once (items_of h a)) (shards c))"

text \<open>
  Every class held by a shard is held by the shard that all keys of the class are routed
  to. It holds after construction, and writes keep it when the key type renders alike.
\<close>

definition placed :: "('k, 'c) keytype \<Rightarrow> ('c, 'v) heap \<Rightarrow> ConcurrentHashMap \<Rightarrow> bool" where
  "placed kt h c =
     (\<forall>i k. i < length (shards c) \<and> eq_class kt k \<noteq> None \<and>
            eq_class kt k \<in> set (map fst (items_of h (shards c ! i)))
          \<longrightarrow> shard_index kt c k = i)"

text \<open>Two containers are separate when no shard of the first has the map object of a shard
  of the second.\<close>

definition separate :: "('c, 'v) heap \<Rightarrow> ConcurrentHashMap \<Rightarrow> ConcurrentHashMap \<Rightarrow> bool" where
  "separate h c c' =
     list_all (\<lambda>a. shard_items h a \<notin> set (map (shard_items h) (shards c'))) (shards c)"

datatype ('k, 'v) mutation = SetOp 'k 'v | DeleteOp 'k

fun apply_writes ::
  "('k, 'c) keytype \<Rightarrow> ('c, 'v) heap \<Rightarrow> ConcurrentHashMap \<Rightarrow> ('k, 'v) mutation list
     \<Rightarrow> panic + ('c, 'v) heap" where
  "apply_writes kt h c [] = Inr h"
| "apply_writes kt h c (SetOp k v # ws) =
     (case Set kt h c k v of Inl e \<Rightarrow> Inl e | Inr h' \<Rightarrow> apply_writes kt h' c ws)"
| "apply_writes kt h c (DeleteOp k # ws) =
     (case Delete kt h c k of Inl e \<Rightarrow> Inl e | Inr h' \<Rightarrow> apply_writes kt h' c ws)"

subsection \<open>Key types and containers used as concrete inputs\<close>

text \<open>
  Three values of \<open>float64\<close>: the two zeros and a NaN. Go's \<open>==\<close> holds between the zeros
  (one class) and never with NaN, not even with itself; \<open>%v\<close> renders them as \<open>0\<close>,
  \<open>-0\<close> and \<open>NaN\<close>.
\<close>

datatype float64 = PosZero | NegZero | NaN

definition float_eq :: "float64 \<Rightarrow> float64 \<Rightarrow> bool" where
  "float_eq a b = (a \<noteq> NaN \<and> b \<noteq> NaN)"

definition float_keys :: "(float64, unit) keytype" where
  "float_keys =
     \<lparr>eq_class = (\<lambda>x. if x = NaN then None else Some ()),
      format_v = (\<lambda>x. case x of PosZero \<Rightarrow> ''0'' | NegZero \<Rightarrow> ''-0'' | NaN \<Rightarrow> ''NaN'')\<rparr>"

text \<open>\<open>NewConcurrentHashMap(2)\<close> on the empty heap: the container and the heap it
  returns.\<close>

definition two_shards :: ConcurrentHashMap where
  "two_shards = fst (projr (NewConcurrentHashMap 2 (empty_heap :: (unit, unit) heap)))"

definition two_shards_heap :: "('c, 'v) heap" where
  "two_shards_heap = snd (projr (NewConcurrentHashMap 2 empty_heap))"

text \<open>The heap after \<open>Set("a", 1)\<close> and \<open>Set("one", 2)\<close> on that container.\<close>

definition demo_heap :: "(string, int) heap" where
  "demo_heap =
     projr (Set string_keys (projr (Set string_keys two_shards_heap two_shards ''a'' 1))
       two_shards ''one'' 2)"

section \<open>Properties\<close>

subsection \<open>Evaluation of the concrete inputs\<close>

lemmas eval_defs = usable_def Set_def Get_def Delete_def getShard_def shard_index_def Sum32a_def
  offset32_def prime32_def string_keys_def float_keys_def items_of_def Let_def
  map_index_def map_assign_def map_delete_def key_eq_def

lemma two_shards_eval:
  "two_shards = \<lparr>shards = [0, 1], shardMask = 1\<rparr>"
  "two_shards_heap =
     \<lparr>shard_items = (\<lambda>_. 0)(0 := 0, 1 := 1), map_entries = (\<lambda>_. [])(0 := [], 1 := []),
      next_shard = 2, next_map = 2\<rparr>"
  by (simp_all add: two_shards_def two_shards_heap_def NewConcurrentHashMap_def new_shard_def
      empty_heap_def numeral_2_eq_2)

lemma New_two_shards: "NewConcurrentHashMap 2 empty_heap = Inr (two_shards, two_shards_heap)"
  by (simp add: two_shards_def two_shards_heap_def NewConcurrentHashMap_def new_shard_def
      empty_heap_def numeral_2_eq_2)

lemma demo_heap_eval:
  "demo_heap =
     \<lparr>shard_items = (\<lambda>_. 0)(0 := 0, 1 := 1),
      map_entries = (\<lambda>_. [])(0 := [(Some ''a'', 1)], 1 := [(Some ''one'', 2)]),
      next_shard = 2, next_map = 2\<rparr>"
  by (simp add: demo_heap_def two_shards_eval eval_defs)

lemma demo_heap_valid: "valid demo_heap two_shards \<and> usable two_shards"
  by (simp add: demo_heap_eval two_shards_eval valid_def usable_def items_of_def keys_once_def)

subsection \<open>The router stays inside the slice\<close>

lemma shard_index_le_mask: "shard_index kt c key \<le> unat (shardMask c)"
  unfolding shard_index_def by (rule word_and_le1 [THEN word_le_nat_alt [THEN iffD1]])

lemma getShard_usable:
  "usable c \<Longrightarrow> getShard kt c key = Inr (shards c ! shard_index kt c key)"
  using shard_index_le_mask [of kt c key] by (simp add: getShard_def usable_def Let_def)

lemma Set_usable: "usable c \<Longrightarrow> \<exists>h'. Set kt h c key val = Inr h'"
  by (simp add: Set_def getShard_usable)

lemma Delete_usable: "usable c \<Longrightarrow> \<exists>h'. Delete kt h c key = Inr h'"
  by (simp add: Delete_def getShard_usable)

lemma Get_usable: "usable c \<Longrightarrow> \<exists>r. Get kt h c key = Inr r"
  by (simp add: Get_def getShard_usable)

lemma mask_below_count:
  assumes "1 \<le> n"
  shows "unat (word_of_int n - 1 :: 32 word) < nat n"
proof -
  from assms have "n = int (Suc (nat n - 1))" by simp
  then obtain k where k: "n = int (Suc k)" ..
  have "word_of_int n - 1 = (of_nat k :: 32 word)"
    by (simp add: k)
  then have "unat (word_of_int n - 1 :: 32 word) \<le> k"
    by (simp add: unat_of_nat)
  then show ?thesis by (simp add: k)
qed

lemma and_pow2_mask:
  assumes "j \<le> 32"
  shows "unat (w AND (word_of_int (2 ^ j) - 1 :: 32 word)) = unat w mod 2 ^ j"
proof -
  have "(word_of_int (2 ^ j) - 1 :: 32 word) = mask j"
    by (simp add: mask_eq_exp_minus_1)
  then have "w AND (word_of_int (2 ^ j) - 1 :: 32 word) = take_bit j w"
    by (simp add: take_bit_eq_mask)
  moreover have "unat (take_bit j w) = take_bit j (unat w)"
    by (rule unsigned_take_bit_eq)
  ultimately show ?thesis
    by (simp only: take_bit_eq_mod)
qed

subsection \<open>What construction allocates\<close>

lemma keys_once_Nil [simp]: "keys_once []"
  by (simp add: keys_once_def)

lemma new_shards_closed:
  "new_shards n h =
     ([next_shard h ..< next_shard h + n],
      h\<lparr>shard_items := (\<lambda>a. if next_shard h \<le> a \<and> a < next_shard h + n
                              then next_map h + (a - next_shard h) else shard_items h a),
        map_entries := (\<lambda>r. if next_map h \<le> r \<and> r < next_map h + n then [] else map_entries h r),
        next_shard := next_shard h + n,
        next_map := next_map h + n\<rparr>)"
proof (induction n arbitrary: h)
  case 0
  show ?case by (cases h) (auto simp: fun_eq_iff)
next
  case (Suc n)
  show ?case
    by (cases h) (auto simp: Suc new_shard_def upt_conv_Cons [symmetric] fun_eq_iff)
qed

lemma fst_new_shards: "fst (new_shards n h) = [next_shard h ..< next_shard h + n]"
  by (simp add: new_shards_closed)

lemma next_new_shards:
  "next_shard (snd (new_shards n h)) = next_shard h + n"
  "next_map (snd (new_shards n h)) = next_map h + n"
  by (simp_all add: new_shards_closed)

lemma shard_items_new_shards:
  "shard_items (snd (new_shards n h)) a =
     (if next_shard h \<le> a \<and> a < next_shard h + n then next_map h + (a - next_shard h)
      else shard_items h a)"
  by (simp add: new_shards_closed)

lemma map_entries_new_shards:
  "map_entries (snd (new_shards n h)) r =
     (if next_map h \<le> r \<and> r < next_map h + n then [] else map_entries h r)"
  by (simp add: new_shards_closed)

lemma items_of_new_shards:
  "a \<in> set (fst (new_shards n h)) \<Longrightarrow> items_of (snd (new_shards n h)) a = []"
  by (auto simp: items_of_def fst_new_shards shard_items_new_shards map_entries_new_shards)

lemma valid_new_shards:
  "valid (snd (new_shards n h)) \<lparr>shards = fst (new_shards n h), shardMask = m\<rparr>"
proof -
  have "inj_on (shard_items (snd (new_shards n h))) (set [next_shard h ..< next_shard h + n])"
    by (auto simp: inj_on_def shard_items_new_shards)
  then have "distinct (map (shard_items (snd (new_shards n h))) (fst (new_shards n h)))"
    by (simp add: distinct_map fst_new_shards)
  moreover have "list_all (\<lambda>a. a < next_shard (snd (new_shards n h)) \<and>
        shard_items (snd (new_shards n h)) a < next_map (snd (new_shards n h)) \<and>
        keys_once (items_of (snd (new_shards n h)) a)) (fst (new_shards n h))"
    unfolding list_all_iff
  proof
    fix a assume a: "a \<in> set (fst (new_shards n h))"
    then have "items_of (snd (new_shards n h)) a = []" by (rule items_of_new_shards)
    with a show "a < next_shard (snd (new_shards n h)) \<and>
        shard_items (snd (new_shards n h)) a < next_map (snd (new_shards n h)) \<and>
        keys_once (items_of (snd (new_shards n h)) a)"
      by (auto simp: fst_new_shards next_new_shards shard_items_new_shards)
  qed
  ultimately show ?thesis by (simp add: valid_def)
qed

lemma contents_new_shards:
  "contents (snd (new_shards n h)) \<lparr>shards = fst (new_shards n h), shardMask = m\<rparr>
     = replicate n []"
proof -
  have "map (items_of (snd (new_shards n h))) (fst (new_shards n h))
      = map (\<lambda>_. []) (fst (new_shards n h))"
    by (rule map_cong) (simp_all add: items_of_new_shards)
  then show ?thesis
    by (simp add: contents_def map_replicate_const fst_new_shards)
qed

lemma New_nonneg:
  "0 \<le> n \<Longrightarrow> NewConcurrentHashMap n h =
     Inr (\<lparr>shards = fst (new_shards (nat n) h), shardMask = word_of_int n - 1\<rparr>,
          snd (new_shards (nat n) h))"
  by (simp add: NewConcurrentHashMap_def split: prod.splits)

lemma usable_New:
  "1 \<le> n \<Longrightarrow> usable \<lparr>shards = fst (new_shards (nat n) h), shardMask = word_of_int n - 1\<rparr>"
  using mask_below_count [of n] by (simp add: usable_def fst_new_shards)

lemma zero_shards_panic:
  "getShard kt \<lparr>shards = [], shardMask = m\<rparr> key = Inl IndexOutOfRange"
  by (simp add: getShard_def)

subsection \<open>What a write changes\<close>

lemma map_index_assign_same: "kc \<noteq> None \<Longrightarrow> map_index (map_assign m kc v) kc = Some v"
  by (auto simp: map_index_def map_assign_def AList.update_conv')

lemma map_index_assign_other:
  "\<not> (kc \<noteq> None \<and> kc = kc') \<Longrightarrow> map_index (map_assign m kc v) kc' = map_index m kc'"
  by (auto simp: map_index_def map_assign_def AList.update_conv' map_add_def
      split: option.splits)

lemma map_index_delete_same: "map_index (map_delete m kc) kc = None"
  by (auto simp: map_index_def map_delete_def AList.delete_conv' split: option.splits)

lemma map_index_delete_other:
  "\<not> (kc \<noteq> None \<and> kc = kc') \<Longrightarrow> map_index (map_delete m kc) kc' = map_index m kc'"
  by (auto simp: map_index_def map_delete_def AList.delete_conv' split: option.splits)

lemma delete_absent: "map_of xs k = None \<Longrightarrow> AList.delete k xs = xs"
  by (induction xs) (auto split: if_splits)

lemma map_delete_absent: "map_index m kc = None \<Longrightarrow> map_delete m kc = m"
  by (auto simp: map_index_def map_delete_def delete_absent split: option.splits)

lemma map_index_keys:
  assumes "map_index m kc \<noteq> None"
  shows "kc \<noteq> None \<and> kc \<in> set (map fst m)"
proof (cases kc)
  case None
  with assms show ?thesis by (simp add: map_index_def)
next
  case (Some c)
  with assms have "map_of m (Some c) \<noteq> None" by (simp add: map_index_def)
  then have "Some c \<in> fst ` set m" by (simp add: map_of_eq_None_iff)
  with Some show ?thesis by simp
qed

lemma map_assign_present_keys:
  assumes "map_index m kc \<noteq> None"
  shows "map fst (map_assign m kc v) = map fst m"
proof -
  from map_index_keys [OF assms] have 1: "kc \<noteq> None" and 2: "kc \<in> set (map fst m)"
    by simp_all
  from 1 obtain c where c: "kc = Some c" by auto
  have "map fst (AList.update (Some c) v m) = map fst m"
    unfolding AList.update_keys using 2 c by simp
  with c show ?thesis by (simp add: map_assign_def)
qed

lemma map_assign_same: "map_index m kc = Some v \<Longrightarrow> map_assign m kc v = m"
  by (auto simp: map_index_def map_assign_def AList.update_triv split: option.splits)

lemma keys_map_assign:
  "set (map fst (map_assign m kc v)) = insert kc (set (map fst m))"
proof (cases kc)
  case None
  then show ?thesis by (simp add: map_assign_def)
next
  case (Some c)
  have "set (map fst (AList.update (Some c) v m)) = insert (Some c) (set (map fst m))"
    unfolding AList.update_keys by auto
  with Some show ?thesis by (simp add: map_assign_def)
qed

lemma keys_map_delete: "set (map fst (map_delete m kc)) \<subseteq> set (map fst m)"
proof (cases kc)
  case None
  then show ?thesis by (simp add: map_delete_def)
next
  case (Some c)
  have "set (map fst (AList.delete (Some c) m)) \<subseteq> set (map fst m)"
    unfolding AList.delete_keys by auto
  with Some show ?thesis by (simp add: map_delete_def)
qed

lemma keys_once_assign: "keys_once m \<Longrightarrow> keys_once (map_assign m kc v)"
proof (cases kc)
  case None
  assume "keys_once m"
  with None show ?thesis by (simp add: keys_once_def map_assign_def)
next
  case (Some c)
  assume "keys_once m"
  then have "distinct (filter (\<lambda>kc. kc \<noteq> None) (map fst (AList.update (Some c) v m)))"
    unfolding AList.update_keys keys_once_def by auto
  with Some show ?thesis by (simp add: keys_once_def map_assign_def)
qed

lemma keys_once_delete: "keys_once m \<Longrightarrow> keys_once (map_delete m kc)"
proof (cases kc)
  case None
  assume "keys_once m"
  with None show ?thesis by (simp add: map_delete_def)
next
  case (Some c)
  assume "keys_once m"
  then have "distinct (filter (\<lambda>x. x \<noteq> Some c) (filter (\<lambda>kc. kc \<noteq> None) (map fst m)))"
    unfolding keys_once_def by (rule distinct_filter)
  then have "distinct (filter (\<lambda>kc. kc \<noteq> None) (map fst (AList.delete (Some c) m)))"
    unfolding AList.delete_keys removeAll_filter_not_eq
    by (simp add: conj_commute eq_commute)
  with Some show ?thesis by (simp add: keys_once_def map_delete_def)
qed

lemma count_fst:
  "length (filter (\<lambda>e. fst e = x) es) = length (filter (\<lambda>y. y = x) (map fst es))"
  by (simp add: filter_map comp_def)

lemma distinct_count_one:
  "distinct xs \<Longrightarrow> x \<in> set xs \<Longrightarrow> length (filter (\<lambda>y. y = x) xs) = 1"
  by (induction xs) (auto simp: filter_empty_conv)

lemma live_entries_contents: "live_entries h c = concat (contents h c)"
  by (simp add: live_entries_def contents_def)

lemma Set_Inr:
  "Set kt h c k v = Inr h' \<Longrightarrow>
     \<exists>a. getShard kt c k = Inr a \<and>
         h' = h\<lparr>map_entries := (map_entries h)
                 (shard_items h a := map_assign (items_of h a) (eq_class kt k) v)\<rparr>"
  by (auto simp: Set_def split: sum.splits)

lemma Delete_Inr:
  "Delete kt h c k = Inr h' \<Longrightarrow>
     \<exists>a. getShard kt c k = Inr a \<and>
         h' = h\<lparr>map_entries := (map_entries h)
                 (shard_items h a := map_delete (items_of h a) (eq_class kt k))\<rparr>"
  by (auto simp: Delete_def split: sum.splits)

lemma getShard_in_shards: "getShard kt c k = Inr a \<Longrightarrow> a \<in> set (shards c)"
  by (auto simp: getShard_def Let_def split: if_splits)

lemma getShard_format_v:
  "format_v kt k = format_v kt k' \<Longrightarrow> getShard kt c k = getShard kt c k'"
  by (simp add: getShard_def shard_index_def)

subsection \<open>The two loops of a traversal are one loop over the live entries\<close>

lemma range_items_append:
  "range_items f (xs @ ys) st =
     (case range_items f xs st of
        (ok, st') \<Rightarrow> if \<not> ok then (False, st') else range_items f ys st')"
  by (induction xs arbitrary: st) (auto split: prod.splits)

lemma range_shards_flat:
  "range_shards f h as st = snd (range_items f (concat (map (items_of h) as)) st)"
  by (induction as arbitrary: st) (auto simp: range_items_append split: prod.splits)

lemma Range_flat: "Range_chm f h c st = snd (range_items f (live_entries h c) st)"
  by (simp add: Range_chm_def live_entries_def range_shards_flat)

lemma Collect_flat:
  "Collect_chm h c = snd (range_items (\<lambda>k v m. (True, map_assign m k v)) (concat (contents h c)) [])"
  by (simp add: Collect_chm_def All_chm_def range_shards_flat contents_def)

lemma traced_all_true:
  assumes "\<And>k v st. fst (f k v st)"
  shows "fst (range_items (traced f) es (log, st)) \<and>
         fst (snd (range_items (traced f) es (log, st))) = log @ es"
proof (induction es arbitrary: log st)
  case Nil
  show ?case by simp
next
  case (Cons e es)
  obtain st' where f: "f (fst e) (snd e) st = (True, st')"
    using assms [of "fst e" "snd e" st] by (cases "f (fst e) (snd e) st") auto
  show ?case
    using Cons.IH [of "log @ [e]" st'] by (simp add: traced_def f)
qed

lemma traced_stop:
  assumes "range_items (traced f) xs (log, st) = (True, (log', st1))"
    and "\<not> fst (f (fst e) (snd e) st1)"
  shows "range_items (traced f) (xs @ e # ys) (log, st)
           = (False, (log' @ [e], snd (f (fst e) (snd e) st1)))"
proof -
  obtain b s' where fe: "f (fst e) (snd e) st1 = (b, s')"
    by (cases "f (fst e) (snd e) st1")
  with assms(2) have "\<not> b" by simp
  then show ?thesis
    by (simp add: range_items_append assms(1) traced_def fe)
qed

lemma demo_live: "live_entries demo_heap two_shards = [(Some ''a'', 1), (Some ''one'', 2)]"
  by (simp add: live_entries_def demo_heap_eval two_shards_eval items_of_def)

subsection \<open>What Clone allocates, and what writes to one container leave alone\<close>

lemma separate_iff:
  "separate h c c' \<longleftrightarrow>
     (\<forall>a\<in>set (shards c). \<forall>b\<in>set (shards c'). shard_items h a \<noteq> shard_items h b)"
  by (auto simp: separate_def list_all_iff image_iff)

lemma clone_shards_props:
  assumes "length as = length bs" and "distinct bs" and "set as \<inter> set bs = {}"
    and "list_all (\<lambda>a. shard_items h a < next_map h) as"
  shows "\<exists>h'. clone_shards h as bs = Inr h' \<and>
           next_map h' = next_map h + length as \<and>
           next_shard h' = next_shard h \<and>
           (\<forall>x. x \<notin> set bs \<longrightarrow> shard_items h' x = shard_items h x) \<and>
           (\<forall>r. r < next_map h \<longrightarrow> map_entries h' r = map_entries h r) \<and>
           map (shard_items h') bs = [next_map h ..< next_map h + length as] \<and>
           map (items_of h') bs = map (items_of h) as"
  using assms
proof (induction h as bs rule: clone_shards.induct)
  case (1 h bs)
  then show ?case by simp
next
  case (2 h a as)
  then show ?case by simp
next
  case (3 h a as b bs)
  let ?h1 = "h\<lparr>shard_items := (shard_items h)(b := next_map h),
          map_entries := (map_entries h)(next_map h := items_of h a),
          next_map := Suc (next_map h)\<rparr>"
  have ab: "a \<noteq> b" "b \<notin> set as" "b \<notin> set bs" "a \<notin> set bs"
    using "3.prems" by auto
  have old: "shard_items h a < next_map h" "list_all (\<lambda>a. shard_items h a < next_map h) as"
    using "3.prems" by auto
  have pre: "length as = length bs" "distinct bs" "set as \<inter> set bs = {}"
    using "3.prems" by auto
  have pre4: "list_all (\<lambda>a. shard_items ?h1 a < next_map ?h1) as"
    using old(2) ab(2) by (auto simp: list_all_iff)
  from "3.IH" [OF pre pre4] obtain h' where
    c: "clone_shards ?h1 as bs = Inr h'"
    and nm: "next_map h' = next_map ?h1 + length as"
    and ns: "next_shard h' = next_shard ?h1"
    and si: "\<forall>x. x \<notin> set bs \<longrightarrow> shard_items h' x = shard_items ?h1 x"
    and me: "\<forall>r. r < next_map ?h1 \<longrightarrow> map_entries h' r = map_entries ?h1 r"
    and refs: "map (shard_items h') bs = [next_map ?h1 ..< next_map ?h1 + length as]"
    and its: "map (items_of h') bs = map (items_of ?h1) as"
    by blast
  have b_ref: "shard_items h' b = next_map h"
    using si ab(3) by simp
  have b_items: "items_of h' b = items_of h a"
    using me by (simp add: items_of_def b_ref)
  have as_items: "map (items_of ?h1) as = map (items_of h) as"
  proof (rule map_cong [OF refl])
    fix x assume x: "x \<in> set as"
    then have "x \<noteq> b" using ab(2) by auto
    moreover have "shard_items h x < next_map h"
      using old(2) x by (auto simp: list_all_iff)
    ultimately show "items_of ?h1 x = items_of h x"
      by (simp add: items_of_def)
  qed
  show ?case
  proof (intro exI conjI allI impI)
    show "clone_shards h (a # as) (b # bs) = Inr h'" using c by simp
    show "next_map h' = next_map h + length (a # as)" using nm by simp
    show "next_shard h' = next_shard h" using ns by simp
    show "shard_items h' x = shard_items h x" if "x \<notin> set (b # bs)" for x
      using that si by simp
    show "map_entries h' r = map_entries h r" if "r < next_map h" for r
      using that me by simp
    show "map (shard_items h') (b # bs) = [next_map h ..< next_map h + length (a # as)]"
    proof -
      have "[next_map h ..< next_map h + length (a # as)]
          = next_map h # [next_map ?h1 ..< next_map ?h1 + length as]"
        by (simp add: upt_conv_Cons del: upt_Suc)
      then show ?thesis by (simp only: list.map refs b_ref)
    qed
    show "map (items_of h') (b # bs) = map (items_of h) (a # as)"
      using its as_items b_items by simp
  qed
qed

lemma Clone_props:
  assumes v: "valid h c"
  shows "\<exists>c' h'. Clone h c = Inr (c', h') \<and>
           length (shards c') = length (shards c) \<and>
           contents h' c' = contents h c \<and>
           contents h' c = contents h c \<and>
           valid h' c' \<and> valid h' c \<and> separate h' c c' \<and> separate h' c' c"
proof -
  let ?n = "length (shards c)"
  let ?bs = "fst (new_shards ?n h)"
  let ?h0 = "snd (new_shards ?n h)"
  let ?c' = "\<lparr>shards = ?bs, shardMask = word_of_int (int ?n) - 1\<rparr>"
  have new: "NewConcurrentHashMap (int ?n) h = Inr (?c', ?h0)"
    using New_nonneg [of "int ?n" h] by simp
  have old: "a < next_shard h" "shard_items h a < next_map h" "keys_once (items_of h a)"
    if "a \<in> set (shards c)" for a
    using v that by (auto simp: valid_def list_all_iff)
  have bs: "?bs = [next_shard h ..< next_shard h + ?n]" by (rule fst_new_shards)
  have si0: "shard_items ?h0 a = shard_items h a" if "a \<in> set (shards c)" for a
    using old(1) [OF that] by (simp add: shard_items_new_shards)
  have me0: "map_entries ?h0 r = map_entries h r" if "r < next_map h" for r
    using that by (simp add: map_entries_new_shards)
  have it0: "items_of ?h0 a = items_of h a" if "a \<in> set (shards c)" for a
    using si0 [OF that] me0 [OF old(2) [OF that]] by (simp add: items_of_def)
  have p1: "length (shards c) = length ?bs" by (simp add: bs)
  have p2: "distinct ?bs" by (simp add: bs)
  have p3: "set (shards c) \<inter> set ?bs = {}"
    using old(1) by (fastforce simp: bs)
  have p4: "list_all (\<lambda>a. shard_items ?h0 a < next_map ?h0) (shards c)"
    using old(2) si0 by (fastforce simp: list_all_iff next_new_shards trans_less_add1)
  from clone_shards_props [OF p1 p2 p3 p4] obtain h' where
    c: "clone_shards ?h0 (shards c) ?bs = Inr h'"
    and nm: "next_map h' = next_map ?h0 + ?n"
    and ns: "next_shard h' = next_shard ?h0"
    and si: "\<forall>x. x \<notin> set ?bs \<longrightarrow> shard_items h' x = shard_items ?h0 x"
    and me: "\<forall>r. r < next_map ?h0 \<longrightarrow> map_entries h' r = map_entries ?h0 r"
    and refs: "map (shard_items h') ?bs = [next_map ?h0 ..< next_map ?h0 + ?n]"
    and its: "map (items_of h') ?bs = map (items_of ?h0) (shards c)"
    by blast
  have clone: "Clone h c = Inr (?c', h')"
    by (simp add: Clone_def new c)
  have si': "shard_items h' a = shard_items h a" if "a \<in> set (shards c)" for a
    using that p3 si si0 by auto
  have it': "items_of h' a = items_of h a" if "a \<in> set (shards c)" for a
  proof -
    have "shard_items h a < next_map ?h0"
      using old(2) [OF that] by (simp add: next_new_shards)
    then show ?thesis
      using me me0 [OF old(2) [OF that]] by (simp add: items_of_def si' [OF that])
  qed
  have its': "map (items_of h') ?bs = map (items_of h) (shards c)"
    using its it0 by (simp cong: map_cong)
  have cont': "contents h' ?c' = contents h c"
    by (simp add: contents_def its')
  have cont: "contents h' c = contents h c"
    using it' by (simp add: contents_def cong: map_cong)
  have refs_c: "map (shard_items h') (shards c) = map (shard_items h) (shards c)"
    using si' by (simp cong: map_cong)
  have valid_c: "valid h' c"
    unfolding valid_def
  proof (intro conjI)
    show "distinct (map (shard_items h') (shards c))"
      using v by (simp add: refs_c valid_def)
    show "list_all (\<lambda>a. a < next_shard h' \<and> shard_items h' a < next_map h' \<and>
        keys_once (items_of h' a)) (shards c)"
      unfolding list_all_iff
    proof
      fix a assume a: "a \<in> set (shards c)"
      have "a < next_shard h'"
        using old(1) [OF a] by (simp add: ns next_new_shards)
      moreover have "shard_items h' a < next_map h'"
        using old(2) [OF a] by (simp add: si' [OF a] nm next_new_shards)
      moreover have "keys_once (items_of h' a)"
        using old(3) [OF a] by (simp add: it' [OF a])
      ultimately show "a < next_shard h' \<and> shard_items h' a < next_map h' \<and>
        keys_once (items_of h' a)" by simp
    qed
  qed
  have ref_b: "next_map h + ?n \<le> shard_items h' b \<and> shard_items h' b < next_map h + ?n + ?n"
    if "b \<in> set ?bs" for b
  proof -
    from that have "shard_items h' b \<in> set (map (shard_items h') ?bs)" by simp
    then show ?thesis unfolding refs by (simp add: next_new_shards)
  qed
  have items_b: "keys_once (items_of h' b)" if "b \<in> set ?bs" for b
  proof -
    from that have "items_of h' b \<in> set (map (items_of h') ?bs)" by simp
    then have "items_of h' b \<in> set (map (items_of h) (shards c))" by (simp only: its')
    then show ?thesis using old(3) by auto
  qed
  have valid_c': "valid h' ?c'"
    unfolding valid_def
  proof (intro conjI)
    show "distinct (map (shard_items h') (shards ?c'))"
      using refs by simp
    show "list_all (\<lambda>a. a < next_shard h' \<and> shard_items h' a < next_map h' \<and>
        keys_once (items_of h' a)) (shards ?c')"
      unfolding list_all_iff
    proof
      fix b assume b: "b \<in> set (shards ?c')"
      then have b': "b \<in> set ?bs" by simp
      have "b < next_shard h'" using b' by (simp add: ns next_new_shards bs)
      moreover have "shard_items h' b < next_map h'"
        using ref_b [OF b'] by (simp add: nm next_new_shards)
      ultimately show "b < next_shard h' \<and> shard_items h' b < next_map h' \<and>
        keys_once (items_of h' b)"
        using items_b [OF b'] by simp
    qed
  qed
  have sep: "shard_items h' a \<noteq> shard_items h' b"
    if "a \<in> set (shards c)" "b \<in> set ?bs" for a b
    using old(2) [OF that(1)] ref_b [OF that(2)] si' [OF that(1)] by simp
  have sep1: "separate h' c ?c'"
    using sep by (simp add: separate_iff)
  have sep2: "separate h' ?c' c"
    using sep by (simp add: separate_iff) metis
  show ?thesis
  proof (intro exI conjI)
    show "Clone h c = Inr (?c', h')" by (rule clone)
    show "length (shards ?c') = length (shards c)" by (simp add: bs)
  qed (rule cont' cont valid_c' valid_c sep1 sep2)+
qed

lemma Set_frame:
  assumes "separate h c c'" and "Set kt h c k v = Inr h1"
  shows "contents h1 c' = contents h c' \<and> separate h1 c c'"
proof -
  from assms(2) obtain a where a: "getShard kt c k = Inr a"
    and h1: "h1 = h\<lparr>map_entries := (map_entries h)
                 (shard_items h a := map_assign (items_of h a) (eq_class kt k) v)\<rparr>"
    by (auto dest: Set_Inr)
  have "a \<in> set (shards c)" using a by (rule getShard_in_shards)
  with assms(1) have "shard_items h b \<noteq> shard_items h a" if "b \<in> set (shards c')" for b
    using that by (simp add: separate_iff) metis
  then have "items_of h1 b = items_of h b" if "b \<in> set (shards c')" for b
    using that by (simp add: h1 items_of_def)
  then have "contents h1 c' = contents h c'"
    by (simp add: contents_def cong: map_cong)
  moreover have "separate h1 c c'"
    using assms(1) by (simp add: separate_iff h1)
  ultimately show ?thesis by simp
qed

lemma Delete_frame:
  assumes "separate h c c'" and "Delete kt h c k = Inr h1"
  shows "contents h1 c' = contents h c' \<and> separate h1 c c'"
proof -
  from assms(2) obtain a where a: "getShard kt c k = Inr a"
    and h1: "h1 = h\<lparr>map_entries := (map_entries h)
                 (shard_items h a := map_delete (items_of h a) (eq_class kt k))\<rparr>"
    by (auto dest: Delete_Inr)
  have "a \<in> set (shards c)" using a by (rule getShard_in_shards)
  with assms(1) have "shard_items h b \<noteq> shard_items h a" if "b \<in> set (shards c')" for b
    using that by (simp add: separate_iff) metis
  then have "items_of h1 b = items_of h b" if "b \<in> set (shards c')" for b
    using that by (simp add: h1 items_of_def)
  then have "contents h1 c' = contents h c'"
    by (simp add: contents_def cong: map_cong)
  moreover have "separate h1 c c'"
    using assms(1) by (simp add: separate_iff h1)
  ultimately show ?thesis by simp
qed

lemma apply_writes_frame:
  "separate h c c' \<Longrightarrow> apply_writes kt h c ws = Inr h1 \<Longrightarrow> contents h1 c' = contents h c'"
proof (induction kt h c ws rule: apply_writes.induct)
  case (1 kt h c)
  then show ?case by simp
next
  case (2 kt h c k v ws)
  from "2.prems"(2) obtain h' where s: "Set kt h c k v = Inr h'"
    and r: "apply_writes kt h' c ws = Inr h1"
    by (auto split: sum.splits)
  from Set_frame [OF "2.prems"(1) s] "2.IH" [OF s _ r] show ?case by simp
next
  case (3 kt h c k ws)
  from "3.prems"(2) obtain h' where s: "Delete kt h c k = Inr h'"
    and r: "apply_writes kt h' c ws = Inr h1"
    by (auto split: sum.splits)
  from Delete_frame [OF "3.prems"(1) s] "3.IH" [OF s _ r] show ?case by simp
qed

lemma Collect_contents: "contents h c = contents h' c' \<Longrightarrow> Collect_chm h c = Collect_chm h' c'"
  by (simp add: Collect_flat)

lemma maps_EqualFunc_refl:
  assumes "keys_once m" and "list_all (\<lambda>e. fst e \<noteq> None \<and> eq (snd e) (snd e)) m"
  shows "maps_EqualFunc eq m m"
proof -
  have d: "distinct (map fst m)"
  proof -
    have "filter (\<lambda>kc. kc \<noteq> None) (map fst m) = map fst m"
      using assms(2) by (auto simp: list_all_iff filter_id_conv)
    with assms(1) show ?thesis by (simp add: keys_once_def)
  qed
  have "map_index m (fst e) = Some (snd e) \<and> eq (snd e) (snd e)" if "e \<in> set m" for e
  proof -
    from that assms(2) obtain c where c: "fst e = Some c" and r: "eq (snd e) (snd e)"
      by (auto simp: list_all_iff)
    have "(fst e, snd e) \<in> set m" using that by simp
    then have "map_of m (fst e) = Some (snd e)"
      by (simp add: map_of_eq_Some_iff [OF d])
    with c r show ?thesis by (simp add: map_index_def)
  qed
  then show ?thesis
    by (auto simp: maps_EqualFunc_def list_all_iff)
qed

lemma equal_shards_same:
  assumes "length as = length bs"
    and "map (items_of h) as = map (items_of h) bs"
    and "list_all (\<lambda>a. keys_once (items_of h a) \<and>
           list_all (\<lambda>e. fst e \<noteq> None \<and> eq (snd e) (snd e)) (items_of h a)) as"
  shows "equal_shards eq h as bs = Inr True"
  using assms
  by (induction as bs rule: list_induct2) (auto simp: maps_EqualFunc_refl)

lemma Clone_demo_eval:
  "Clone demo_heap two_shards =
     Inr (\<lparr>shards = [2, 3], shardMask = 1\<rparr>,
          \<lparr>shard_items = (\<lambda>_. 0)(0 := 0, 1 := 1, 2 := 4, 3 := 5),
           map_entries = (\<lambda>_. [])(0 := [(Some ''a'', 1)], 1 := [(Some ''one'', 2)], 2 := [], 3 := [],
             4 := [(Some ''a'', 1)], 5 := [(Some ''one'', 2)]),
           next_shard = 4, next_map = 6\<rparr>)"
  by (simp add: Clone_def NewConcurrentHashMap_def new_shard_def demo_heap_eval two_shards_eval
      items_of_def numeral_2_eq_2 numeral_3_eq_3 eval_nat_numeral)

lemma two_shards_sel: "shards two_shards = [0, 1]" "shardMask two_shards = 1"
  by (simp_all add: two_shards_eval)

lemmas run_defs = Collect_chm_def All_chm_def items_of_def Set_def Delete_def
  getShard_def shard_index_def Sum32a_def offset32_def prime32_def string_keys_def Let_def
  map_assign_def map_delete_def map_index_def


text \<open>Writes keep every container of the heap well-formed.\<close>

lemma Set_valid:
  assumes "Set kt h c k v = Inr h'" and "valid h c2"
  shows "valid h' c2"
proof -
  from assms(1) obtain a where
    h': "h' = h\<lparr>map_entries := (map_entries h)
                 (shard_items h a := map_assign (items_of h a) (eq_class kt k) v)\<rparr>"
    by (auto dest: Set_Inr)
  have "keys_once (items_of h' b)" if "keys_once (items_of h b)" for b
    using that by (auto simp: h' items_of_def intro: keys_once_assign)
  with assms(2) show ?thesis
    by (auto simp: valid_def list_all_iff h')
qed

lemma Delete_valid:
  assumes "Delete kt h c k = Inr h'" and "valid h c2"
  shows "valid h' c2"
proof -
  from assms(1) obtain a where
    h': "h' = h\<lparr>map_entries := (map_entries h)
                 (shard_items h a := map_delete (items_of h a) (eq_class kt k))\<rparr>"
    by (auto dest: Delete_Inr)
  have "keys_once (items_of h' b)" if "keys_once (items_of h b)" for b
    using that by (auto simp: h' items_of_def intro: keys_once_delete)
  with assms(2) show ?thesis
    by (auto simp: valid_def list_all_iff h')
qed

lemma apply_writes_valid:
  "apply_writes kt h c ws = Inr h' \<Longrightarrow> valid h c2 \<Longrightarrow> valid h' c2"
proof (induction kt h c ws rule: apply_writes.induct)
  case (1 kt h c)
  then show ?case by simp
next
  case (2 kt h c k v ws)
  then show ?case by (auto split: sum.splits dest: Set_valid)
next
  case (3 kt h c k ws)
  then show ?case by (auto split: sum.splits dest: Delete_valid)
qed


subsection \<open>Where the classes of keys are held\<close>

lemma sum_list_single:
  "i0 < length xs \<Longrightarrow> (\<And>i. i < length xs \<Longrightarrow> i \<noteq> i0 \<Longrightarrow> g (xs ! i) = (0::nat))
     \<Longrightarrow> sum_list (map g xs) = g (xs ! i0)"
proof (induction xs arbitrary: i0)
  case Nil
  then show ?case by simp
next
  case (Cons x xs)
  show ?case
  proof (cases i0)
    case 0
    have "g y = 0" if "y \<in> set xs" for y
    proof -
      from that obtain j where "j < length xs" "xs ! j = y" by (auto simp: in_set_conv_nth)
      then show ?thesis using Cons.prems(2) [of "Suc j"] 0 by simp
    qed
    then have "sum_list (map g xs) = 0" by simp
    with 0 show ?thesis by simp
  next
    case (Suc j)
    have "sum_list (map g xs) = g (xs ! j)"
    proof (rule Cons.IH)
      show "j < length xs" using Cons.prems(1) Suc by simp
      show "g (xs ! i) = 0" if "i < length xs" "i \<noteq> j" for i
        using Cons.prems(2) [of "Suc i"] that Suc by simp
    qed
    moreover have "g x = 0" using Cons.prems(2) [of 0] Suc by simp
    ultimately show ?thesis using Suc by simp
  qed
qed

lemma count_live_entries:
  "length (filter P (live_entries h c))
     = sum_list (map (\<lambda>a. length (filter P (items_of h a))) (shards c))"
  by (simp add: live_entries_def filter_concat length_concat comp_def)

lemma keys_once_count:
  assumes "keys_once m" and "kc \<noteq> None" and "kc \<in> set (map fst m)"
  shows "length (filter (\<lambda>e. fst e = kc) m) = 1"
proof -
  have "filter (\<lambda>y. y = kc) (map fst m)
      = filter (\<lambda>y. y = kc) (filter (\<lambda>y. y \<noteq> None) (map fst m))"
    using assms(2) by (auto intro: filter_cong)
  moreover have "length (filter (\<lambda>y. y = kc) (filter (\<lambda>y. y \<noteq> None) (map fst m))) = 1"
    using assms by (intro distinct_count_one) (auto simp: keys_once_def)
  ultimately show ?thesis by (simp add: count_fst)
qed

lemma getShard_index:
  "getShard kt c k = Inr a \<Longrightarrow>
     shard_index kt c k < length (shards c) \<and> a = shards c ! shard_index kt c k"
  by (auto simp: getShard_def Let_def split: if_splits)

lemma placed_new_shards:
  "placed kt (snd (new_shards n h)) \<lparr>shards = fst (new_shards n h), shardMask = m\<rparr>"
  unfolding placed_def
proof (intro allI impI, elim conjE)
  fix i k
  assume "i < length (shards \<lparr>shards = fst (new_shards n h), shardMask = m\<rparr>)"
    and mem: "eq_class kt k \<in> set (map fst (items_of (snd (new_shards n h))
        (shards \<lparr>shards = fst (new_shards n h), shardMask = m\<rparr> ! i)))"
  then have "items_of (snd (new_shards n h)) (fst (new_shards n h) ! i) = []"
    by (simp add: items_of_new_shards)
  with mem show "shard_index kt \<lparr>shards = fst (new_shards n h), shardMask = m\<rparr> k = i"
    by simp
qed

lemma Set_placed:
  assumes ra: "renders_alike kt" and v: "valid h c" and p: "placed kt h c"
    and s: "Set kt h c k v = Inr h'"
  shows "placed kt h' c"
proof -
  from s obtain a where a: "getShard kt c k = Inr a"
    and h': "h' = h\<lparr>map_entries := (map_entries h)
                 (shard_items h a := map_assign (items_of h a) (eq_class kt k) v)\<rparr>"
    by (auto dest: Set_Inr)
  from getShard_index [OF a] have i0: "shard_index kt c k < length (shards c)"
    and a_def: "a = shards c ! shard_index kt c k" by simp_all
  from v have d: "distinct (map (shard_items h) (shards c))" by (simp add: valid_def)
  show ?thesis
    unfolding placed_def
  proof (intro allI impI, elim conjE)
    fix i k'
    assume i: "i < length (shards c)" and ne: "eq_class kt k' \<noteq> None"
      and mem: "eq_class kt k' \<in> set (map fst (items_of h' (shards c ! i)))"
    show "shard_index kt c k' = i"
    proof (cases "shard_items h (shards c ! i) = shard_items h a")
      case True
      then have same: "items_of h (shards c ! i) = items_of h a"
        by (simp add: items_of_def)
      have "items_of h' (shards c ! i) = map_assign (items_of h a) (eq_class kt k) v"
        using True by (simp add: h' items_of_def)
      with mem have "eq_class kt k' = eq_class kt k \<or>
          eq_class kt k' \<in> set (map fst (items_of h a))"
        by (simp only: keys_map_assign) auto
      then show ?thesis
      proof
        assume e: "eq_class kt k' = eq_class kt k"
        with ne have "key_eq kt k' k" by (simp add: key_eq_def)
        with ra have "format_v kt k' = format_v kt k" by (simp add: renders_alike_def)
        then have r: "shard_index kt c k' = shard_index kt c k" by (simp add: shard_index_def)
        have "map (shard_items h) (shards c) ! i
            = map (shard_items h) (shards c) ! shard_index kt c k"
          using True i i0 a_def by simp
        then have "i = shard_index kt c k"
          using nth_eq_iff_index_eq [OF d, of i "shard_index kt c k"] i i0 by simp
        with r show ?thesis by simp
      next
        assume "eq_class kt k' \<in> set (map fst (items_of h a))"
        with same have "eq_class kt k' \<in> set (map fst (items_of h (shards c ! i)))" by simp
        with p i ne show ?thesis by (simp add: placed_def)
      qed
    next
      case False
      then have "items_of h' (shards c ! i) = items_of h (shards c ! i)"
        by (simp add: h' items_of_def)
      with mem p i ne show ?thesis by (simp add: placed_def)
    qed
  qed
qed

lemma Delete_placed:
  assumes p: "placed kt h c" and s: "Delete kt h c k = Inr h'"
  shows "placed kt h' c"
proof -
  from s obtain a where
    h': "h' = h\<lparr>map_entries := (map_entries h)
                 (shard_items h a := map_delete (items_of h a) (eq_class kt k))\<rparr>"
    by (auto dest: Delete_Inr)
  have sub: "set (map fst (items_of h' b)) \<subseteq> set (map fst (items_of h b))" for b
  proof (cases "shard_items h b = shard_items h a")
    case True
    then have "items_of h' b = map_delete (items_of h b) (eq_class kt k)"
      by (simp add: h' items_of_def)
    then show ?thesis by (simp only: keys_map_delete)
  next
    case False
    then show ?thesis by (simp add: h' items_of_def)
  qed
  show ?thesis
    unfolding placed_def
  proof (intro allI impI, elim conjE)
    fix i k'
    assume i: "i < length (shards c)" and ne: "eq_class kt k' \<noteq> None"
      and mem: "eq_class kt k' \<in> set (map fst (items_of h' (shards c ! i)))"
    from mem sub have "eq_class kt k' \<in> set (map fst (items_of h (shards c ! i)))" by blast
    with p i ne show "shard_index kt c k' = i" by (simp add: placed_def)
  qed
qed

lemma apply_writes_placed:
  "renders_alike kt \<Longrightarrow> valid h c \<Longrightarrow> placed kt h c \<Longrightarrow> apply_writes kt h c ws = Inr h'
     \<Longrightarrow> valid h' c \<and> placed kt h' c"
proof (induction kt h c ws rule: apply_writes.induct)
  case (1 kt h c)
  then show ?case by simp
next
  case (2 kt h c k v ws)
  from "2.prems"(4) obtain h1 where s: "Set kt h c k v = Inr h1"
    and r: "apply_writes kt h1 c ws = Inr h'"
    by (auto split: sum.splits)
  have "valid h1 c" using s "2.prems"(2) by (rule Set_valid)
  moreover have "placed kt h1 c" using "2.prems"(1-3) s by (rule Set_placed)
  ultimately show ?case using "2.IH" [OF s "2.prems"(1) _ _ r] by simp
next
  case (3 kt h c k ws)
  from "3.prems"(4) obtain h1 where s: "Delete kt h c k = Inr h1"
    and r: "apply_writes kt h1 c ws = Inr h'"
    by (auto split: sum.splits)
  have "valid h1 c" using s "3.prems"(2) by (rule Delete_valid)
  moreover have "placed kt h1 c" using "3.prems"(3) s by (rule Delete_placed)
  ultimately show ?case using "3.IH" [OF s "3.prems"(1) _ _ r] by simp
qed

text \<open>Every container built by construction and writes, with keys that render alike.\<close>

lemma built_valid_placed:
  assumes "renders_alike kt" and "NewConcurrentHashMap n h0 = Inr (c, hN)"
    and "apply_writes kt hN c ws = Inr h"
  shows "valid h c \<and> placed kt h c"
proof -
  from assms(2) have n: "0 \<le> n"
    by (auto simp: NewConcurrentHashMap_def split: if_splits)
  from assms(2) New_nonneg [OF n, of h0]
  have c: "c = \<lparr>shards = fst (new_shards (nat n) h0), shardMask = word_of_int n - 1\<rparr>"
    and hN: "hN = snd (new_shards (nat n) h0)" by simp_all
  have "valid hN c" unfolding c hN by (rule valid_new_shards)
  moreover have "placed kt hN c" unfolding c hN by (rule placed_new_shards)
  ultimately show ?thesis using assms(1,3) by (intro apply_writes_placed)
qed

lemma placed_count_one:
  assumes v: "valid h c" and p: "placed kt h c" and a: "getShard kt c k = Inr a"
    and ne: "eq_class kt k \<noteq> None"
    and mem: "eq_class kt k \<in> set (map fst (items_of h a))"
  shows "length (filter (\<lambda>e. fst e = eq_class kt k) (live_entries h c)) = 1"
proof -
  let ?g = "\<lambda>b. length (filter (\<lambda>e. fst e = eq_class kt k) (items_of h b))"
  from getShard_index [OF a] have i0: "shard_index kt c k < length (shards c)"
    and a_def: "a = shards c ! shard_index kt c k" by simp_all
  have zero: "?g (shards c ! i) = 0" if "i < length (shards c)" "i \<noteq> shard_index kt c k" for i
  proof -
    have "eq_class kt k \<notin> set (map fst (items_of h (shards c ! i)))"
      using p that ne by (auto simp: placed_def)
    then show ?thesis by (fastforce simp: filter_empty_conv image_iff)
  qed
  have "keys_once (items_of h a)"
    using v i0 a_def by (simp add: valid_def list_all_iff)
  then have one: "?g a = 1" using ne mem by (rule keys_once_count)
  have "sum_list (map ?g (shards c)) = ?g (shards c ! shard_index kt c k)"
    using i0 zero by (rule sum_list_single)
  with one a_def show ?thesis by (simp add: count_live_entries)
qed

lemma apply_writes_append:
  "apply_writes kt h c (ws @ ws') =
     (case apply_writes kt h c ws of Inl e \<Rightarrow> Inl e | Inr h' \<Rightarrow> apply_writes kt h' c ws')"
  by (induction kt h c ws rule: apply_writes.induct) (auto split: sum.splits)

lemma string_keys_render_alike: "renders_alike string_keys"
  by (simp add: renders_alike_def key_eq_def string_keys_def)

lemma demo_heap_built:
  "apply_writes string_keys two_shards_heap two_shards [SetOp ''a'' 1, SetOp ''one'' 2]
     = Inr demo_heap"
  by (simp add: demo_heap_def two_shards_eval eval_defs)

subsection \<open>C1: keys that are equal, rendered differently\<close>

text \<open>
  C1 evaluated at \<open>float64\<close> keys on a container of two shards. The zeros \<open>0\<close> and \<open>-0\<close>
  are equal keys, yet \<open>getShard\<close> sends the first to shard 1 and the second to shard 0:
  after \<open>Set(0, 1)\<close> the call \<open>Get(-0)\<close> finds nothing, and after \<open>Set(-0, 2)\<close> as well the
  one key is held by both shards.
\<close>

theorem float_zero_keys_misrouted:
  "key_eq float_keys NegZero PosZero \<and>
   getShard float_keys two_shards PosZero = Inr 1 \<and>
   getShard float_keys two_shards NegZero = Inr 0 \<and>
   Get float_keys
     (projr (Set float_keys two_shards_heap two_shards PosZero (1::int)))
     two_shards NegZero = Inr None \<and>
   map fst (live_entries
     (projr (Set float_keys
        (projr (Set float_keys two_shards_heap two_shards PosZero (1::int)))
        two_shards NegZero 2)) two_shards) = [Some (), Some ()]"
  by (simp add: two_shards_eval eval_defs live_entries_def)

subsection \<open>C2: the router masks, whatever the shard count\<close>

text \<open>
  C2, as stated, fails: \<open>NewConcurrentHashMap(3)\<close> is not rejected, it returns a container
  with mask 2, and the empty string, whose hash is 1 modulo 3, is routed to shard 0.
\<close>

theorem three_shards_masked:
  "map_sum id fst (NewConcurrentHashMap 3 (empty_heap :: (string, int) heap))
     = Inr \<lparr>shards = [0, 1, 2], shardMask = 2\<rparr> \<and>
   shard_index string_keys \<lparr>shards = [0, 1, 2], shardMask = 2\<rparr> [] = 0 \<and>
   unat (Sum32a (format_v string_keys [])) mod 3 = 1"
proof (intro conjI)
  show "map_sum id fst (NewConcurrentHashMap 3 (empty_heap :: (string, int) heap))
     = Inr \<lparr>shards = [0, 1, 2], shardMask = 2\<rparr>"
    by (simp add: NewConcurrentHashMap_def new_shard_def empty_heap_def numeral_3_eq_3)
  show "shard_index string_keys \<lparr>shards = [0, 1, 2], shardMask = 2\<rparr> [] = 0"
    by (simp add: shard_index_def Sum32a_def offset32_def string_keys_def)
  show "unat (Sum32a (format_v string_keys [])) mod 3 = 1"
    by (simp add: Sum32a_def offset32_def string_keys_def)
qed

text \<open>
  C2, amended. Construction accepts every shard count from 1 on, a power of two or not, and
  the router always reduces the hash with the mask \<open>uint32(shardCount) - 1\<close>. The index this
  gives is below the shard count, and it is the hash modulo the shard count when the shard
  count is a power of two up to \<open>2 ^ 32\<close>.
\<close>

theorem mask_routing:
  assumes "1 \<le> shardCount"
  shows "\<exists>c h'. NewConcurrentHashMap shardCount h = Inr (c, h') \<and>
           shard_index kt c key
             = unat (Sum32a (format_v kt key) AND (word_of_int shardCount - 1)) \<and>
           shard_index kt c key < nat shardCount \<and>
           (j \<le> 32 \<and> shardCount = 2 ^ j \<longrightarrow>
              shard_index kt c key = unat (Sum32a (format_v kt key)) mod nat shardCount)"
proof -
  let ?c = "\<lparr>shards = fst (new_shards (nat shardCount) h), shardMask = word_of_int shardCount - 1\<rparr>"
  have 1: "NewConcurrentHashMap shardCount h = Inr (?c, snd (new_shards (nat shardCount) h))"
    using assms by (simp add: New_nonneg)
  have 2: "shard_index kt ?c key = unat (Sum32a (format_v kt key) AND (word_of_int shardCount - 1))"
    by (simp add: shard_index_def)
  have 3: "shard_index kt ?c key < nat shardCount"
    using shard_index_le_mask [of kt ?c key] mask_below_count [OF assms] by simp
  have 4: "j \<le> 32 \<and> shardCount = 2 ^ j \<longrightarrow>
      shard_index kt ?c key = unat (Sum32a (format_v kt key)) mod nat shardCount"
    using and_pow2_mask [of j "Sum32a (format_v kt key)"]
    by (auto simp: shard_index_def nat_power_eq)
  from 1 2 3 4 show ?thesis by (intro exI conjI)
qed

theorem mask_routing_witness:
  "(1::int) \<le> 2 \<and> (1::nat) \<le> 32 \<and> (2::int) = 2 ^ 1 \<and>
   shard_index string_keys two_shards ''one''
     = unat (Sum32a (format_v string_keys ''one'')) mod nat 2"
  using mask_routing [of 2 "empty_heap :: (string, int) heap" string_keys "''one''" 1]
  by (auto simp: New_two_shards)

subsection \<open>C3: what construction returns\<close>

text \<open>
  C3, as stated, fails at \<open>shardCount = 0\<close>: construction returns a container, one with no
  shards and the mask \<open>0xFFFFFFFF\<close>.
\<close>

theorem zero_shards_accepted:
  "NewConcurrentHashMap 0 (empty_heap :: (string, int) heap) =
     Inr (\<lparr>shards = [], shardMask = 4294967295\<rparr>, empty_heap)"
  by (simp add: NewConcurrentHashMap_def)

text \<open>
  C3, amended. For every negative shard count construction panics in \<open>make\<close> and returns
  no container. For every shard count from 0 on it returns a container of exactly that many
  shards, each a shard of its own with an empty map; from 1 on the container serves every key.
\<close>

theorem NewConcurrentHashMap_shards:
  "(shardCount < 0 \<longrightarrow> NewConcurrentHashMap shardCount h = Inl MakesliceLenOutOfRange) \<and>
   (0 \<le> shardCount \<longrightarrow>
      (\<exists>c h'. NewConcurrentHashMap shardCount h = Inr (c, h') \<and>
         length (shards c) = nat shardCount \<and>
         contents h' c = replicate (nat shardCount) [] \<and>
         valid h' c \<and> (1 \<le> shardCount \<longrightarrow> usable c)))"
proof (intro conjI impI)
  assume "shardCount < 0"
  then show "NewConcurrentHashMap shardCount h = Inl MakesliceLenOutOfRange"
    by (simp add: NewConcurrentHashMap_def)
next
  assume n: "0 \<le> shardCount"
  show "\<exists>c h'. NewConcurrentHashMap shardCount h = Inr (c, h') \<and>
         length (shards c) = nat shardCount \<and>
         contents h' c = replicate (nat shardCount) [] \<and>
         valid h' c \<and> (1 \<le> shardCount \<longrightarrow> usable c)"
  proof (intro exI conjI impI)
    show "NewConcurrentHashMap shardCount h =
        Inr (\<lparr>shards = fst (new_shards (nat shardCount) h),
               shardMask = word_of_int shardCount - 1\<rparr>, snd (new_shards (nat shardCount) h))"
      by (rule New_nonneg [OF n])
    show "length (shards \<lparr>shards = fst (new_shards (nat shardCount) h),
               shardMask = word_of_int shardCount - 1\<rparr>) = nat shardCount"
      by (simp add: fst_new_shards)
    show "contents (snd (new_shards (nat shardCount) h))
        \<lparr>shards = fst (new_shards (nat shardCount) h), shardMask = word_of_int shardCount - 1\<rparr>
        = replicate (nat shardCount) []"
      by (rule contents_new_shards)
    show "valid (snd (new_shards (nat shardCount) h))
        \<lparr>shards = fst (new_shards (nat shardCount) h), shardMask = word_of_int shardCount - 1\<rparr>"
      by (rule valid_new_shards)
    show "usable \<lparr>shards = fst (new_shards (nat shardCount) h),
               shardMask = word_of_int shardCount - 1\<rparr>" if "1 \<le> shardCount"
      using that by (rule usable_New)
  qed
qed

theorem NewConcurrentHashMap_shards_witness:
  "(-1::int) < 0 \<and>
   NewConcurrentHashMap (-1) (empty_heap :: (string, int) heap) = Inl MakesliceLenOutOfRange \<and>
   (0::int) \<le> 2 \<and> (1::int) \<le> 2 \<and>
   length (shards two_shards) = nat 2 \<and>
   contents (two_shards_heap :: (string, int) heap) two_shards = replicate (nat 2) [] \<and>
   valid (two_shards_heap :: (string, int) heap) two_shards \<and>
   usable two_shards"
  using NewConcurrentHashMap_shards [of "-1" "empty_heap :: (string, int) heap"]
    NewConcurrentHashMap_shards [of 2 "empty_heap :: (string, int) heap"]
  by (auto simp: New_two_shards)

subsection \<open>C4: a key reads back what was set\<close>

text \<open>
  C4, as stated, fails at a key that is not equal to itself: with \<open>float64\<close> keys,
  \<open>Set(NaN, 1)\<close> returns and \<open>Get(NaN)\<close> then reports the key as not found.
\<close>

theorem NaN_key_not_found:
  "\<not> key_eq float_keys NaN NaN \<and>
   Set float_keys two_shards_heap two_shards NaN (1::int)
     = Inr (projr (Set float_keys two_shards_heap two_shards NaN 1)) \<and>
   Get float_keys (projr (Set float_keys two_shards_heap two_shards NaN (1::int)))
     two_shards NaN = Inr None"
  by (simp add: two_shards_eval eval_defs)

text \<open>
  C4, amended. For every key \<open>k\<close> that is equal to itself, after \<open>Set(k, v)\<close> has returned,
  on any heap and any container, \<open>Get(k)\<close> returns \<open>(v, true)\<close>; and \<open>Set\<close> does return on
  every container whose mask is below its number of shards, which is every container built
  with a shard count from 1 on.
\<close>

theorem Set_then_Get:
  "(key_eq kt k k \<and> Set kt h c k v = Inr h' \<longrightarrow> Get kt h' c k = Inr (Some v)) \<and>
   (usable c \<longrightarrow> (\<exists>h''. Set kt h c k v = Inr h''))"
proof (intro conjI impI)
  assume a: "key_eq kt k k \<and> Set kt h c k v = Inr h'"
  then obtain a where g: "getShard kt c k = Inr a"
    and h': "h' = h\<lparr>map_entries := (map_entries h)
                 (shard_items h a := map_assign (items_of h a) (eq_class kt k) v)\<rparr>"
    by (auto dest: Set_Inr)
  from a have "eq_class kt k \<noteq> None" by (simp add: key_eq_def)
  then show "Get kt h' c k = Inr (Some v)"
    by (simp add: Get_def g h' items_of_def map_index_assign_same)
next
  assume "usable c"
  then show "\<exists>h''. Set kt h c k v = Inr h''" by (rule Set_usable)
qed

theorem Set_then_Get_witness:
  "key_eq string_keys ''one'' ''one'' \<and>
   usable two_shards \<and>
   Set string_keys two_shards_heap two_shards ''one'' (1::int)
     = Inr (projr (Set string_keys two_shards_heap two_shards ''one'' 1)) \<and>
   Get string_keys (projr (Set string_keys two_shards_heap two_shards ''one'' 1))
     two_shards ''one'' = Inr (Some 1)"
  using Set_then_Get [of string_keys "''one''" two_shards_heap two_shards 1
      "projr (Set string_keys two_shards_heap two_shards ''one'' 1)"]
  by (simp add: two_shards_eval eval_defs)

subsection \<open>C5: Delete\<close>

text \<open>
  C5. After \<open>Delete(k)\<close> has returned, \<open>Get(k)\<close> reports the key as not found, and a second
  \<open>Delete(k)\<close> returns with the heap as it is. \<open>Delete\<close> of a key that \<open>Get\<close> does not
  find returns normally and leaves the whole heap unchanged. \<open>Delete\<close> returns on every
  container whose mask is below its number of shards.
\<close>

theorem Delete_then_Get:
  "(Delete kt h c k = Inr h' \<longrightarrow> Get kt h' c k = Inr None \<and> Delete kt h' c k = Inr h') \<and>
   (Get kt h c k = Inr None \<longrightarrow> Delete kt h c k = Inr h) \<and>
   (usable c \<longrightarrow> (\<exists>h''. Delete kt h c k = Inr h''))"
proof (intro conjI impI)
  assume d: "Delete kt h c k = Inr h'"
  then obtain a where a: "getShard kt c k = Inr a"
    and h': "h' = h\<lparr>map_entries := (map_entries h)
                 (shard_items h a := map_delete (items_of h a) (eq_class kt k))\<rparr>"
    by (auto dest: Delete_Inr)
  show "Get kt h' c k = Inr None"
    by (simp add: Get_def a h' items_of_def map_index_delete_same)
  have "map_index (items_of h' a) (eq_class kt k) = None"
    by (simp add: h' items_of_def map_index_delete_same)
  then have "map_delete (items_of h' a) (eq_class kt k) = items_of h' a"
    by (rule map_delete_absent)
  then show "Delete kt h' c k = Inr h'"
    by (simp add: Delete_def a) (simp add: items_of_def)
next
  assume "Get kt h c k = Inr None"
  then obtain a where a: "getShard kt c k = Inr a"
    and "map_index (items_of h a) (eq_class kt k) = None"
    by (auto simp: Get_def split: sum.splits)
  then have "map_delete (items_of h a) (eq_class kt k) = items_of h a"
    by (simp add: map_delete_absent)
  then show "Delete kt h c k = Inr h"
    by (simp add: Delete_def a) (simp add: items_of_def)
next
  assume "usable c"
  then show "\<exists>h''. Delete kt h c k = Inr h''" by (rule Delete_usable)
qed

theorem Delete_then_Get_witness:
  "usable two_shards \<and>
   Delete string_keys demo_heap two_shards ''one''
     = Inr (projr (Delete string_keys demo_heap two_shards ''one'')) \<and>
   Get string_keys (projr (Delete string_keys demo_heap two_shards ''one'')) two_shards ''one''
     = Inr None \<and>
   Delete string_keys (projr (Delete string_keys demo_heap two_shards ''one'')) two_shards ''one''
     = Inr (projr (Delete string_keys demo_heap two_shards ''one''))"
  using Delete_then_Get [of string_keys demo_heap two_shards "''one''"
      "projr (Delete string_keys demo_heap two_shards ''one'')"]
    Delete_then_Get [of string_keys "projr (Delete string_keys demo_heap two_shards ''one'')"
      two_shards "''one''" "projr (Delete string_keys demo_heap two_shards ''one'')"]
  by (simp add: demo_heap_eval two_shards_eval eval_defs)

subsection \<open>C6: the last write wins\<close>

text \<open>
  C6, as stated, fails at a key that is not equal to itself: with \<open>float64\<close> keys, after
  \<open>Set(NaN, 1)\<close> and again \<open>Set(NaN, 1)\<close> the container holds two entries where it held
  one after the first call, the identical second \<open>Set\<close> has changed it, and \<open>Get(NaN)\<close>
  finds nothing.
\<close>

theorem NaN_key_set_twice:
  "Set float_keys two_shards_heap two_shards NaN (1::int)
     = Inr (projr (Set float_keys two_shards_heap two_shards NaN 1)) \<and>
   Set float_keys (projr (Set float_keys two_shards_heap two_shards NaN (1::int)))
       two_shards NaN 1
     = Inr (projr (Set float_keys (projr (Set float_keys two_shards_heap two_shards NaN 1))
         two_shards NaN 1)) \<and>
   live_entries (projr (Set float_keys two_shards_heap two_shards NaN (1::int))) two_shards
     = [(None, 1)] \<and>
   live_entries
     (projr (Set float_keys (projr (Set float_keys two_shards_heap two_shards NaN (1::int)))
        two_shards NaN 1)) two_shards
     = [(None, 1), (None, 1)] \<and>
   Get float_keys
     (projr (Set float_keys (projr (Set float_keys two_shards_heap two_shards NaN (1::int)))
        two_shards NaN 1)) two_shards NaN
     = Inr None"
  by (simp add: two_shards_eval eval_defs live_entries_def)

text \<open>
  C6, amended. For every key \<open>k\<close> that is equal to itself: when \<open>Set(k, v1)\<close> and then
  \<open>Set(k, v2)\<close> have returned, \<open>Get(k)\<close> returns \<open>v2\<close>; the second \<open>Set\<close> leaves the keys
  of every shard as they are, so the number of entries for \<open>k\<close> is what it was after the
  first; that number is one in every container built by construction and writes with a key
  type that renders alike; and with \<open>v2 = v1\<close> the second \<open>Set\<close> changes nothing at all.
\<close>

theorem Set_last_write_wins:
  assumes "key_eq kt k k" and "Set kt h c k v1 = Inr h1" and "Set kt h1 c k v2 = Inr h2"
  shows "Get kt h2 c k = Inr (Some v2) \<and>
         map (map fst) (contents h2 c) = map (map fst) (contents h1 c) \<and>
         length (filter (\<lambda>e. fst e = eq_class kt k) (live_entries h2 c))
           = length (filter (\<lambda>e. fst e = eq_class kt k) (live_entries h1 c)) \<and>
         (renders_alike kt \<and> NewConcurrentHashMap n h0 = Inr (c, hN) \<and>
          apply_writes kt hN c ws = Inr h \<longrightarrow>
            length (filter (\<lambda>e. fst e = eq_class kt k) (live_entries h1 c)) = 1 \<and>
            length (filter (\<lambda>e. fst e = eq_class kt k) (live_entries h2 c)) = 1) \<and>
         (v2 = v1 \<longrightarrow> h2 = h1)"
proof -
  let ?kc = "eq_class kt k"
  from assms(1) have ne: "?kc \<noteq> None" by (simp add: key_eq_def)
  from assms(2) obtain a where a: "getShard kt c k = Inr a"
    and h1: "h1 = h\<lparr>map_entries := (map_entries h)
                 (shard_items h a := map_assign (items_of h a) ?kc v1)\<rparr>"
    by (auto dest: Set_Inr)
  from assms(3) a have h2: "h2 = h1\<lparr>map_entries := (map_entries h1)
                 (shard_items h1 a := map_assign (items_of h1 a) ?kc v2)\<rparr>"
    by (auto dest: Set_Inr)
  have present: "map_index (items_of h1 a) ?kc = Some v1"
    using ne by (simp add: h1 items_of_def map_index_assign_same)
  have get: "Get kt h2 c k = Inr (Some v2)"
    using ne by (simp add: Get_def a h2 items_of_def map_index_assign_same)
  have keys_a: "map fst (map_assign (items_of h1 a) ?kc v2) = map fst (items_of h1 a)"
    using present by (simp add: map_assign_present_keys)
  have "map fst (items_of h2 b) = map fst (items_of h1 b)" for b
    using keys_a by (simp add: h2 items_of_def)
  then have keys: "map (map fst) (contents h2 c) = map (map fst) (contents h1 c)"
    by (simp add: contents_def)
  then have keys_live: "map fst (live_entries h2 c) = map fst (live_entries h1 c)"
    by (simp add: live_entries_contents map_concat)
  have same: "length (filter (\<lambda>e. fst e = ?kc) (live_entries h2 c))
           = length (filter (\<lambda>e. fst e = ?kc) (live_entries h1 c))"
    by (simp add: count_fst keys_live)
  have one: "length (filter (\<lambda>e. fst e = ?kc) (live_entries h1 c)) = 1 \<and>
             length (filter (\<lambda>e. fst e = ?kc) (live_entries h2 c)) = 1"
    if b: "renders_alike kt \<and> NewConcurrentHashMap n h0 = Inr (c, hN) \<and>
          apply_writes kt hN c ws = Inr h"
  proof -
    from b have "apply_writes kt hN c (ws @ [SetOp k v1]) = Inr h1"
      using assms(2) by (simp add: apply_writes_append)
    with b have "valid h1 c \<and> placed kt h1 c"
      by (intro built_valid_placed [of kt n h0 c hN "ws @ [SetOp k v1]" h1]) simp_all
    moreover have "?kc \<in> set (map fst (items_of h1 a))"
      using present map_index_keys [of "items_of h1 a" ?kc] by simp
    ultimately have "length (filter (\<lambda>e. fst e = ?kc) (live_entries h1 c)) = 1"
      using a ne by (intro placed_count_one) simp_all
    with same show ?thesis by simp
  qed
  have idem: "h2 = h1" if "v2 = v1"
  proof -
    have "map_assign (items_of h1 a) ?kc v1 = items_of h1 a"
      using present by (rule map_assign_same)
    then show ?thesis by (simp add: h2 that) (simp add: items_of_def)
  qed
  from get keys same one idem show ?thesis by blast
qed

theorem Set_last_write_wins_witness:
  "(let h1 = projr (Set string_keys demo_heap two_shards ''one'' 5);
        h2 = projr (Set string_keys h1 two_shards ''one'' 9)
    in key_eq string_keys ''one'' ''one'' \<and>
       renders_alike string_keys \<and>
       NewConcurrentHashMap 2 empty_heap = Inr (two_shards, two_shards_heap) \<and>
       apply_writes string_keys two_shards_heap two_shards [SetOp ''a'' 1, SetOp ''one'' 2]
         = Inr demo_heap \<and>
       Set string_keys demo_heap two_shards ''one'' 5 = Inr h1 \<and>
       Set string_keys h1 two_shards ''one'' 9 = Inr h2 \<and>
       Set string_keys h1 two_shards ''one'' 5 = Inr h1 \<and>
       Get string_keys h2 two_shards ''one'' = Inr (Some 9) \<and>
       length (filter (\<lambda>e. fst e = eq_class string_keys ''one'') (live_entries h2 two_shards)) = 1)"
  using Set_last_write_wins [of string_keys "''one''" demo_heap two_shards 5
      "projr (Set string_keys demo_heap two_shards ''one'' 5)" 9
      "projr (Set string_keys (projr (Set string_keys demo_heap two_shards ''one'' 5))
         two_shards ''one'' 9)" 2 empty_heap two_shards_heap
      "[SetOp ''a'' 1, SetOp ''one'' 2]"]
    Set_last_write_wins [of string_keys "''one''" demo_heap two_shards 5
      "projr (Set string_keys demo_heap two_shards ''one'' 5)" 5
      "projr (Set string_keys demo_heap two_shards ''one'' 5)" 2 empty_heap two_shards_heap
      "[SetOp ''a'' 1, SetOp ''one'' 2]"]
    string_keys_render_alike New_two_shards demo_heap_built
  by (simp add: demo_heap_eval two_shards_sel eval_defs live_entries_def)

text \<open>
  Where equal keys are rendered differently the number need not be one: with \<open>float64\<close>
  keys, after \<open>Set(0, 1)\<close> and \<open>Set(-0, 2)\<close> the two further calls \<open>Set(0, 3)\<close> and
  \<open>Set(0, 4)\<close> find two entries for the key and leave two.
\<close>

lemma zero_keys_counted_twice:
  "length (filter (\<lambda>e. fst e = eq_class float_keys PosZero)
     (live_entries
        (projr (apply_writes float_keys two_shards_heap two_shards
           [SetOp PosZero (1::int), SetOp NegZero 2, SetOp PosZero 3]))
        two_shards)) = 2 \<and>
   length (filter (\<lambda>e. fst e = eq_class float_keys PosZero)
     (live_entries
        (projr (apply_writes float_keys two_shards_heap two_shards
           [SetOp PosZero (1::int), SetOp NegZero 2, SetOp PosZero 3, SetOp PosZero 4]))
        two_shards)) = 2"
  by (simp add: two_shards_eval eval_defs live_entries_def)

subsection \<open>C10: a write leaves the other keys alone\<close>

text \<open>
  C10. For keys \<open>k\<close> and \<open>k'\<close> that are not equal, \<open>Get(k')\<close> returns the same after
  \<open>Set(k, v)\<close> and after \<open>Delete(k)\<close> as before; both writes return on every container whose
  mask is below its number of shards.
\<close>

theorem other_keys_untouched:
  "(\<not> key_eq kt k' k \<and> Set kt h c k v = Inr h'
      \<longrightarrow> Get kt h' c k' = Get kt h c k') \<and>
   (\<not> key_eq kt k' k \<and> Delete kt h c k = Inr h'
      \<longrightarrow> Get kt h' c k' = Get kt h c k') \<and>
   (usable c \<longrightarrow> (\<exists>h1 h2. Set kt h c k v = Inr h1 \<and> Delete kt h c k = Inr h2))"
proof (intro conjI impI)
  assume a: "\<not> key_eq kt k' k \<and> Set kt h c k v = Inr h'"
  then obtain a where
    h': "h' = h\<lparr>map_entries := (map_entries h)
                 (shard_items h a := map_assign (items_of h a) (eq_class kt k) v)\<rparr>"
    by (auto dest: Set_Inr)
  from a have "\<not> (eq_class kt k \<noteq> None \<and> eq_class kt k = eq_class kt k')"
    by (auto simp: key_eq_def)
  then have "map_index (map_assign m (eq_class kt k) v) (eq_class kt k')
      = map_index m (eq_class kt k')" for m :: "('b option \<times> 'c) list"
    by (rule map_index_assign_other)
  then show "Get kt h' c k' = Get kt h c k'"
    by (simp add: Get_def h' items_of_def split: sum.splits)
next
  assume a: "\<not> key_eq kt k' k \<and> Delete kt h c k = Inr h'"
  then obtain a where
    h': "h' = h\<lparr>map_entries := (map_entries h)
                 (shard_items h a := map_delete (items_of h a) (eq_class kt k))\<rparr>"
    by (auto dest: Delete_Inr)
  from a have "\<not> (eq_class kt k \<noteq> None \<and> eq_class kt k = eq_class kt k')"
    by (auto simp: key_eq_def)
  then have "map_index (map_delete m (eq_class kt k)) (eq_class kt k')
      = map_index m (eq_class kt k')" for m :: "('b option \<times> 'c) list"
    by (rule map_index_delete_other)
  then show "Get kt h' c k' = Get kt h c k'"
    by (simp add: Get_def h' items_of_def split: sum.splits)
next
  assume u: "usable c"
  from Set_usable [OF u, of kt h k v] Delete_usable [OF u, of kt h k]
  show "\<exists>h1 h2. Set kt h c k v = Inr h1 \<and> Delete kt h c k = Inr h2" by blast
qed

theorem other_keys_untouched_witness:
  "\<not> key_eq string_keys ''a'' ''one'' \<and>
   usable two_shards \<and>
   Set string_keys demo_heap two_shards ''one'' 7
     = Inr (projr (Set string_keys demo_heap two_shards ''one'' 7)) \<and>
   Delete string_keys demo_heap two_shards ''one''
     = Inr (projr (Delete string_keys demo_heap two_shards ''one'')) \<and>
   Get string_keys (projr (Set string_keys demo_heap two_shards ''one'' 7)) two_shards ''a''
     = Inr (Some 1) \<and>
   Get string_keys (projr (Delete string_keys demo_heap two_shards ''one'')) two_shards ''a''
     = Inr (Some 1) \<and>
   Get string_keys demo_heap two_shards ''a'' = Inr (Some 1)"
  using other_keys_untouched [of string_keys "''a''" "''one''" demo_heap two_shards 7
      "projr (Set string_keys demo_heap two_shards ''one'' 7)"]
    other_keys_untouched [of string_keys "''a''" "''one''" demo_heap two_shards 7
      "projr (Delete string_keys demo_heap two_shards ''one'')"]
  by (simp add: demo_heap_eval two_shards_eval eval_defs)

subsection \<open>C7: Range\<close>

text \<open>
  C7. With a visitor that always answers true, \<open>Range\<close> calls it on the live entries of the
  container, each once, shard after shard: as many calls as there are live entries, which
  is the number of keys when no key is held twice. When the visitor has answered true on
  the entries \<open>xs\<close> and answers false on the next entry \<open>e\<close>, the calls of \<open>Range\<close> are
  \<open>xs\<close> and \<open>e\<close> and no more, whatever entries and shards follow.
\<close>

theorem Range_visits:
  "((\<forall>k v s. fst (f k v s)) \<longrightarrow>
      fst (Range_chm (traced f) h c ([], st)) = live_entries h c \<and>
      length (fst (Range_chm (traced f) h c ([], st))) = length (live_entries h c)) \<and>
   (distinct (map fst (live_entries h c)) \<longrightarrow>
      card (fst ` set (live_entries h c)) = length (live_entries h c)) \<and>
   (live_entries h c = xs @ e # ys \<and>
    range_items (traced f) xs ([], st) = (True, (xs, st1)) \<and>
    \<not> fst (f (fst e) (snd e) st1) \<longrightarrow>
      Range_chm (traced f) h c ([], st) = (xs @ [e], snd (f (fst e) (snd e) st1)))"
proof (intro conjI impI)
  assume "\<forall>k v s. fst (f k v s)"
  then have "fst (snd (range_items (traced f) (live_entries h c) ([], st))) = [] @ live_entries h c"
    using traced_all_true [of f "live_entries h c" "[]" st] by blast
  then show 1: "fst (Range_chm (traced f) h c ([], st)) = live_entries h c"
    by (simp add: Range_flat)
  then show "length (fst (Range_chm (traced f) h c ([], st))) = length (live_entries h c)"
    by simp
next
  assume "distinct (map fst (live_entries h c))"
  then have "card (set (map fst (live_entries h c))) = length (map fst (live_entries h c))"
    by (rule distinct_card)
  then show "card (fst ` set (live_entries h c)) = length (live_entries h c)"
    by simp
next
  assume a: "live_entries h c = xs @ e # ys \<and>
    range_items (traced f) xs ([], st) = (True, (xs, st1)) \<and>
    \<not> fst (f (fst e) (snd e) st1)"
  then have "range_items (traced f) (xs @ e # ys) ([], st)
           = (False, (xs @ [e], snd (f (fst e) (snd e) st1)))"
    using traced_stop [of f xs "[]" st xs st1 e ys] by blast
  with a show "Range_chm (traced f) h c ([], st) = (xs @ [e], snd (f (fst e) (snd e) st1))"
    by (simp add: Range_flat)
qed

theorem Range_visits_witness:
  "(\<forall>k v s. fst ((\<lambda>(k::string option) (v::int) (n::nat). (True, Suc n)) k v s)) \<and>
   distinct (map fst (live_entries demo_heap two_shards)) \<and>
   Range_chm (traced (\<lambda>k v n. (True, Suc n))) demo_heap two_shards ([], 0)
     = ([(Some ''a'', 1), (Some ''one'', 2)], 2) \<and>
   live_entries demo_heap two_shards = [] @ (Some ''a'', 1) # [(Some ''one'', 2)] \<and>
   range_items (traced (\<lambda>k v n. (False, Suc n))) [] ([], 0) = (True, ([], 0::nat)) \<and>
   \<not> fst ((\<lambda>(k::string option) (v::int) (n::nat). (False, Suc n)) (fst (Some ''a'', 1)) (snd (Some ''a'', 1)) 0) \<and>
   Range_chm (traced (\<lambda>k v n. (False, Suc n))) demo_heap two_shards ([], 0) = ([(Some ''a'', 1)], 1)"
  using Range_visits [of "\<lambda>k v n. (True, Suc n)" demo_heap two_shards 0 "[]" "(Some ''a'', 1)"
      "[(Some ''one'', 2)]" 0]
    Range_visits [of "\<lambda>k v n. (False, Suc n)" demo_heap two_shards 0 "[]" "(Some ''a'', 1)"
      "[(Some ''one'', 2)]" 0]
  by (simp add: demo_live Range_flat traced_def)

subsection \<open>C8: Clone\<close>

text \<open>
  C8. On a well-formed heap \<open>Clone\<close> returns a container with as many shards as the source,
  \<open>Collect\<close> on the clone equals \<open>Collect\<close> on the source, and the source is as it was.
  The two share no map object: whatever sequence of \<open>Set\<close> and \<open>Delete\<close> calls then runs
  on one of them, the content of every shard of the other, and so its \<open>Collect\<close>, stays
  the same.
\<close>

theorem Clone_independent:
  assumes "valid h c"
  shows "\<exists>c' h'. Clone h c = Inr (c', h') \<and>
           length (shards c') = length (shards c) \<and>
           Collect_chm h' c' = Collect_chm h' c \<and>
           Collect_chm h' c = Collect_chm h c \<and>
           (\<forall>kt ws h''. apply_writes kt h' c' ws = Inr h''
               \<longrightarrow> contents h'' c = contents h' c \<and> Collect_chm h'' c = Collect_chm h' c) \<and>
           (\<forall>kt ws h''. apply_writes kt h' c ws = Inr h''
               \<longrightarrow> contents h'' c' = contents h' c' \<and> Collect_chm h'' c' = Collect_chm h' c')"
proof -
  from Clone_props [OF assms] obtain c' h' where
    clone: "Clone h c = Inr (c', h')"
    and len: "length (shards c') = length (shards c)"
    and c1: "contents h' c' = contents h c"
    and c2: "contents h' c = contents h c"
    and s1: "separate h' c c'" and s2: "separate h' c' c"
    by blast
  have f1: "contents h'' c = contents h' c \<and> Collect_chm h'' c = Collect_chm h' c"
    if "apply_writes kt h' c' ws = Inr h''" for kt :: "('k, 'a) keytype" and ws h''
    using apply_writes_frame [OF s2 that] by (simp add: Collect_flat)
  have f2: "contents h'' c' = contents h' c' \<and> Collect_chm h'' c' = Collect_chm h' c'"
    if "apply_writes kt h' c ws = Inr h''" for kt :: "('k, 'a) keytype" and ws h''
    using apply_writes_frame [OF s1 that] by (simp add: Collect_flat)
  have g1: "\<forall>(kt :: ('k, 'a) keytype) ws h''. apply_writes kt h' c' ws = Inr h''
               \<longrightarrow> contents h'' c = contents h' c \<and> Collect_chm h'' c = Collect_chm h' c"
    using f1 by (intro allI impI)
  have g2: "\<forall>(kt :: ('k, 'a) keytype) ws h''. apply_writes kt h' c ws = Inr h''
               \<longrightarrow> contents h'' c' = contents h' c' \<and> Collect_chm h'' c' = Collect_chm h' c'"
    using f2 by (intro allI impI)
  have e1: "Collect_chm h' c' = Collect_chm h' c" using c1 c2 by (simp add: Collect_flat)
  have e2: "Collect_chm h' c = Collect_chm h c" using c2 by (rule Collect_contents)
  from clone len e1 e2 g1 g2 show ?thesis by (intro exI conjI)
qed

theorem Clone_independent_witness:
  "(let c' = fst (projr (Clone demo_heap two_shards));
        h' = snd (projr (Clone demo_heap two_shards));
        h2 = projr (apply_writes string_keys h' c' [SetOp ''a'' 5, DeleteOp ''one'']);
        h3 = projr (apply_writes string_keys h' two_shards [SetOp ''b'' 3])
    in valid demo_heap two_shards \<and>
       Clone demo_heap two_shards = Inr (c', h') \<and>
       length (shards c') = 2 \<and>
       Collect_chm h' c' = [(Some ''a'', 1), (Some ''one'', 2)] \<and>
       Collect_chm h' two_shards = [(Some ''a'', 1), (Some ''one'', 2)] \<and>
       apply_writes string_keys h' c' [SetOp ''a'' 5, DeleteOp ''one''] = Inr h2 \<and>
       Collect_chm h2 c' = [(Some ''a'', 5)] \<and>
       Collect_chm h2 two_shards = [(Some ''a'', 1), (Some ''one'', 2)] \<and>
       apply_writes string_keys h' two_shards [SetOp ''b'' 3] = Inr h3 \<and>
       Collect_chm h3 two_shards = [(Some ''a'', 1), (Some ''one'', 2), (Some ''b'', 3)] \<and>
       Collect_chm h3 c' = [(Some ''a'', 1), (Some ''one'', 2)])"
  using Clone_independent [of demo_heap two_shards] demo_heap_valid
  by (simp add: Clone_demo_eval two_shards_sel run_defs)


subsection \<open>C9: EqualFunc\<close>

text \<open>
  C9, as stated, fails on maps that hold a NaN. With \<open>string\<close> keys and \<open>float64\<close> values,
  the fresh clone of the map holding \<open>"a": NaN\<close> is not equal to it under the values' \<open>==\<close>;
  with \<open>float64\<close> keys, the fresh clone of the map holding \<open>NaN: 1\<close> is not equal to it
  under \<open>=\<close> on the values.
\<close>

theorem NaN_clone_not_equal:
  "valid (projr (Set string_keys two_shards_heap two_shards ''a'' NaN)) two_shards \<and>
   EqualFunc float_eq
     (snd (projr (Clone (projr (Set string_keys two_shards_heap two_shards ''a'' NaN))
        two_shards)))
     two_shards
     (fst (projr (Clone (projr (Set string_keys two_shards_heap two_shards ''a'' NaN))
        two_shards)))
     = Inr False \<and>
   valid (projr (Set float_keys two_shards_heap two_shards NaN (1::int))) two_shards \<and>
   EqualFunc (=)
     (snd (projr (Clone (projr (Set float_keys two_shards_heap two_shards NaN (1::int)))
        two_shards)))
     two_shards
     (fst (projr (Clone (projr (Set float_keys two_shards_heap two_shards NaN (1::int)))
        two_shards)))
     = Inr False"
  by (simp add: two_shards_eval eval_defs valid_def keys_once_def Clone_def
      NewConcurrentHashMap_def new_shard_def EqualFunc_def maps_EqualFunc_def float_eq_def
      eval_nat_numeral)

text \<open>
  C9, amended. On a well-formed heap \<open>Clone\<close> returns, and when every key held by the map
  is equal to itself and \<open>eq\<close> holds between every value held and itself (under \<open>==\<close>:
  no NaN among the keys and the values), \<open>EqualFunc\<close> of the source and its fresh clone is
  true. For two containers whose numbers of shards differ \<open>EqualFunc\<close> is false, whatever
  the heap holds and whatever \<open>eq\<close> is.
\<close>

theorem EqualFunc_clone:
  "(valid h c \<and> Clone h c = Inr (c', h') \<and>
    list_all (\<lambda>e. fst e \<noteq> None \<and> eq (snd e) (snd e)) (live_entries h c)
      \<longrightarrow> EqualFunc eq h' c c' = Inr True) \<and>
   (valid h c \<longrightarrow> (\<exists>c1 h1. Clone h c = Inr (c1, h1))) \<and>
   (length (shards c) \<noteq> length (shards other) \<longrightarrow> EqualFunc eq h c other = Inr False)"
proof (intro conjI impI)
  assume a: "valid h c \<and> Clone h c = Inr (c', h') \<and>
    list_all (\<lambda>e. fst e \<noteq> None \<and> eq (snd e) (snd e)) (live_entries h c)"
  with Clone_props [of h c] have len: "length (shards c') = length (shards c)"
    and c1: "contents h' c' = contents h c"
    and c2: "contents h' c = contents h c"
    and v: "valid h' c"
    by auto
  have it: "items_of h' a = items_of h a" if "a \<in> set (shards c)" for a
    using c2 that by (simp add: contents_def)
  have "equal_shards eq h' (shards c) (shards c') = Inr True"
  proof (rule equal_shards_same)
    show "length (shards c) = length (shards c')" using len by simp
    show "map (items_of h') (shards c) = map (items_of h') (shards c')"
      using c1 c2 by (simp add: contents_def)
    show "list_all (\<lambda>a. keys_once (items_of h' a) \<and>
           list_all (\<lambda>e. fst e \<noteq> None \<and> eq (snd e) (snd e)) (items_of h' a)) (shards c)"
      using v a by (auto simp: valid_def list_all_iff live_entries_def it)
  qed
  then show "EqualFunc eq h' c c' = Inr True"
    by (simp add: EqualFunc_def len)
next
  assume "valid h c"
  then show "\<exists>c1 h1. Clone h c = Inr (c1, h1)"
    using Clone_props [of h c] by blast
next
  assume "length (shards c) \<noteq> length (shards other)"
  then show "EqualFunc eq h c other = Inr False"
    by (simp add: EqualFunc_def)
qed

theorem EqualFunc_clone_witness:
  "(let c' = fst (projr (Clone demo_heap two_shards));
        h' = snd (projr (Clone demo_heap two_shards));
        other = fst (projr (NewConcurrentHashMap 1 demo_heap));
        h1 = snd (projr (NewConcurrentHashMap 1 demo_heap))
    in valid demo_heap two_shards \<and>
       Clone demo_heap two_shards = Inr (c', h') \<and>
       list_all (\<lambda>e. fst e \<noteq> None \<and> snd e = snd e) (live_entries demo_heap two_shards) \<and>
       EqualFunc (=) h' two_shards c' = Inr True \<and>
       length (shards two_shards) \<noteq> length (shards other) \<and>
       EqualFunc (=) h1 two_shards other = Inr False)"
  using EqualFunc_clone [of demo_heap two_shards "fst (projr (Clone demo_heap two_shards))"
      "snd (projr (Clone demo_heap two_shards))" "(=)" two_shards]
    EqualFunc_clone [of "snd (projr (NewConcurrentHashMap 1 demo_heap))" two_shards
      "fst (projr (Clone demo_heap two_shards))" "snd (projr (Clone demo_heap two_shards))"
      "(=)" "fst (projr (NewConcurrentHashMap 1 demo_heap))"]
    demo_heap_valid
  by (simp add: Clone_demo_eval NewConcurrentHashMap_def new_shard_def two_shards_sel demo_live)

end
